theory Spec2Isabelle
  imports Complex_Main "HOL-Library.Word" "HOL-Library.Multiset"
begin

section \<open>The tensor-operation graph (directed\_boost\_graph.cpp)\<close>

subsection \<open>Data\<close>

type_synonym VertexIdType = nat
type_synonym TensorHashType = nat

text \<open>A tensor operation, as far as the graph reads it: its opcode and the ordered tensor
  operands (position 0 is the output). \<open>getNumOperands\<close> is the length of the list and
  \<open>getTensorOperand i\<close> its \<open>i\<close>-th entry; tensors are known by their identity only.\<close>

record TensorOperation =
  opcode :: nat
  operands :: "TensorHashType list"

record TensorOpNode =
  op :: TensorOperation
  node_id :: VertexIdType

text \<open>\<open>adjacency_list<vecS, vecS, directedS, DirectedBoostVertex, property<edge_weight_t, double>>\<close>:
  a vector of vertices, each with the vector of its out-edges (target and weight, parallel
  edges allowed) and the bundled \<open>properties\<close> pointer (null until it is set).\<close>

record stored_vertex =
  out_edges :: "(VertexIdType \<times> real) list"
  properties :: "TensorOpNode option"

datatype lock_event = Lock | Unlock

datatype error = NullPointer | OutOfRange | AssertionFailed | EmptyQueue

subsection \<open>The execution state\<close>

text \<open>Modelled from the spec: the class \<open>TensorExecState\<close> (data member \<open>exec_state_\<close>) is
  not among the source files. Spec 3 and 4.1: two mappings keyed by tensor identity,
  \<open>readers[T]\<close> and the optional \<open>writer[T]\<close>; \<open>registerTensorWrite(T, v)\<close> sets
  \<open>writer[T] := v\<close> and clears \<open>readers[T]\<close>; \<open>registerTensorRead(T, v)\<close> adds \<open>v\<close> to
  \<open>readers[T]\<close>; \<open>getTensorEpochNodes(T)\<close> returns \<open>({writer}, -1)\<close> if \<open>writer[T]\<close> exists,
  else \<open>readers[T]\<close> with an epoch \<open>\<ge> 0\<close> (here the number of readers), the empty case as
  absent (the null pointer). The readers are kept in the order of their registration.\<close>

record TensorExecState =
  readers :: "TensorHashType \<Rightarrow> VertexIdType list"
  writer :: "TensorHashType \<Rightarrow> VertexIdType option"

definition exec_state_empty :: TensorExecState where
  "exec_state_empty = \<lparr>readers = (\<lambda>_. []), writer = (\<lambda>_. None)\<rparr>"

definition registerTensorWrite :: "TensorHashType \<Rightarrow> VertexIdType \<Rightarrow> TensorExecState \<Rightarrow> TensorExecState" where
  "registerTensorWrite T v es = es\<lparr>writer := (writer es)(T \<mapsto> v), readers := (readers es)(T := [])\<rparr>"

definition registerTensorRead :: "TensorHashType \<Rightarrow> VertexIdType \<Rightarrow> TensorExecState \<Rightarrow> TensorExecState" where
  "registerTensorRead T v es =
     es\<lparr>readers := (readers es)(T := (if v \<in> set (readers es T) then readers es T else readers es T @ [v]))\<rparr>"

definition getTensorEpochNodes :: "TensorExecState \<Rightarrow> TensorHashType \<Rightarrow> VertexIdType list option \<times> int" where
  "getTensorEpochNodes es T =
     (case writer es T of
        Some w \<Rightarrow> (Some [w], - 1)
      | None \<Rightarrow> (if readers es T = [] then None else Some (readers es T), int (length (readers es T))))"

subsection \<open>The graph and its operations\<close>

text \<open>\<open>mtx_log\<close> records the calls of \<open>lock()\<close> and \<open>unlock()\<close> in the order they are made.\<close>

record DirectedBoostGraph =
  dag :: "stored_vertex list"
  exec_state :: TensorExecState
  mtx_log :: "lock_event list"

definition new_graph :: DirectedBoostGraph where
  "new_graph = \<lparr>dag = [], exec_state = exec_state_empty, mtx_log = []\<rparr>"

definition lock :: "DirectedBoostGraph \<Rightarrow> DirectedBoostGraph" where
  "lock g = g\<lparr>mtx_log := mtx_log g @ [Lock]\<rparr>"

definition unlock :: "DirectedBoostGraph \<Rightarrow> DirectedBoostGraph" where
  "unlock g = g\<lparr>mtx_log := mtx_log g @ [Unlock]\<rparr>"

definition empty_vertex :: stored_vertex where
  "empty_vertex = \<lparr>out_edges = [], properties = None\<rparr>"

text \<open>\<open>add_edge(u, v, g)\<close> without a property argument: the edge property is value-initialised,
  so the \<open>double\<close> weight is 0.0. With a \<open>vecS\<close> vertex list the library first enlarges the
  graph to \<open>max(u, v) + 1\<close> vertices when either end is not a vertex yet.\<close>

definition default_edge_weight :: real where
  "default_edge_weight = 0"

definition add_edge :: "VertexIdType \<Rightarrow> VertexIdType \<Rightarrow> stored_vertex list \<Rightarrow> stored_vertex list" where
  "add_edge u v vs =
     (let vs' = vs @ replicate (Suc (max u v) - length vs) empty_vertex
      in vs'[u := (vs' ! u)\<lparr>out_edges := out_edges (vs' ! u) @ [(v, default_edge_weight)]\<rparr>])"

definition addDependency :: "VertexIdType \<Rightarrow> VertexIdType \<Rightarrow> DirectedBoostGraph \<Rightarrow> DirectedBoostGraph" where
  "addDependency dependent_id dependee_id g =
     (let g1 = lock g;
          g2 = g1\<lparr>dag := add_edge dependent_id dependee_id (dag g1)\<rparr>
      in unlock g2)"

text \<open>The loop over the input operands \<open>i = 1 .. num_operands - 1\<close>. \<open>*nodes\<close> is read only
  when \<open>epoch < 0\<close>; a null \<open>nodes\<close> there is a null dereference.\<close>

fun input_operands :: "VertexIdType \<Rightarrow> TensorHashType list \<Rightarrow> DirectedBoostGraph \<Rightarrow> error + DirectedBoostGraph" where
  "input_operands vid [] g = Inr g"
| "input_operands vid (tensor # rest) g =
     (case getTensorEpochNodes (exec_state g) tensor of
        (nodes, epoch) \<Rightarrow>
          if epoch < 0 then
            (case nodes of
               None \<Rightarrow> Inl NullPointer
             | Some ns \<Rightarrow>
                 (let g1 = fold (addDependency vid) ns g
                  in input_operands vid rest
                       (g1\<lparr>exec_state := registerTensorRead tensor vid (exec_state g1)\<rparr>)))
          else input_operands vid rest (g\<lparr>exec_state := registerTensorRead tensor vid (exec_state g)\<rparr>))"

definition addOperation :: "TensorOperation \<Rightarrow> DirectedBoostGraph \<Rightarrow> error + (VertexIdType \<times> DirectedBoostGraph)" where
  "addOperation opn g =
     (let g1 = lock g;
          vid = length (dag g1);
          g2 = g1\<lparr>dag := dag g1 @ [\<lparr>out_edges = [], properties = Some \<lparr>op = opn, node_id = vid\<rparr>\<rparr>]\<rparr>
      in case operands opn of
           [] \<Rightarrow> Inl NullPointer
         | output_tensor # inputs \<Rightarrow>
             (case getTensorEpochNodes (exec_state g2) output_tensor of
                (nodes, epoch) \<Rightarrow>
                  (let g3 = (case nodes of None \<Rightarrow> g2 | Some ns \<Rightarrow> fold (addDependency vid) ns g2);
                       g4 = g3\<lparr>exec_state := registerTensorWrite output_tensor vid (exec_state g3)\<rparr>
                   in case input_operands vid inputs g4 of
                        Inl e \<Rightarrow> Inl e
                      | Inr g5 \<Rightarrow> Inr (vid, unlock g5))))"

text \<open>\<open>edge(u, v, g).second\<close>: whether \<open>v\<close> is the target of an out-edge of \<open>u\<close>. Reading the
  out-edges of an id that is no vertex is out of range.\<close>

definition dependencyExists :: "VertexIdType \<Rightarrow> VertexIdType \<Rightarrow> DirectedBoostGraph \<Rightarrow> error + (bool \<times> DirectedBoostGraph)" where
  "dependencyExists vertex_id1 vertex_id2 g =
     (let g1 = lock g
      in if vertex_id1 < length (dag g1)
         then Inr (vertex_id2 \<in> fst ` set (out_edges (dag g1 ! vertex_id1)), unlock g1)
         else Inl OutOfRange)"

definition getNodeProperties :: "VertexIdType \<Rightarrow> DirectedBoostGraph \<Rightarrow> error + (TensorOpNode \<times> DirectedBoostGraph)" where
  "getNodeProperties vertex_id g =
     (let g1 = lock g
      in if vertex_id < length (dag g1)
         then (case properties (dag g1 ! vertex_id) of
                 None \<Rightarrow> Inl NullPointer
               | Some node_properties \<Rightarrow> Inr (node_properties, unlock g1))
         else Inl OutOfRange)"

definition getNeighborList :: "VertexIdType \<Rightarrow> DirectedBoostGraph \<Rightarrow> error + (VertexIdType list \<times> DirectedBoostGraph)" where
  "getNeighborList vertex_id g =
     (let g1 = lock g
      in if vertex_id < length (dag g1)
         then Inr (map fst (out_edges (dag g1 ! vertex_id)), unlock g1)
         else Inl OutOfRange)"

definition getNodeDegree :: "VertexIdType \<Rightarrow> DirectedBoostGraph \<Rightarrow> error + (nat \<times> DirectedBoostGraph)" where
  "getNodeDegree vertex_id g =
     (let g1 = lock g
      in case getNeighborList vertex_id g1 of
           Inl e \<Rightarrow> Inl e
         | Inr (l, g2) \<Rightarrow> Inr (length l, unlock g2))"

definition getNumNodes :: "DirectedBoostGraph \<Rightarrow> nat \<times> DirectedBoostGraph" where
  "getNumNodes g = (let g1 = lock g in (length (dag g1), unlock g1))"

definition getNumDependencies :: "DirectedBoostGraph \<Rightarrow> nat \<times> DirectedBoostGraph" where
  "getNumDependencies g = (let g1 = lock g in (sum_list (map (\<lambda>sv. length (out_edges sv)) (dag g1)), unlock g1))"

text \<open>\<open>printIt\<close>: the printed lines are returned as the pairs (node, its dependencies).\<close>

fun printIt_loop :: "VertexIdType list \<Rightarrow> DirectedBoostGraph \<Rightarrow> error + ((VertexIdType \<times> VertexIdType list) list \<times> DirectedBoostGraph)" where
  "printIt_loop [] g = Inr ([], g)"
| "printIt_loop (i # rest) g =
     (case getNeighborList i g of
        Inl e \<Rightarrow> Inl e
      | Inr (deps, g1) \<Rightarrow>
          (case printIt_loop rest g1 of
             Inl e \<Rightarrow> Inl e
           | Inr (lines, g2) \<Rightarrow> Inr ((i, deps) # lines, g2)))"

definition printIt :: "DirectedBoostGraph \<Rightarrow> error + ((VertexIdType \<times> VertexIdType list) list \<times> DirectedBoostGraph)" where
  "printIt g =
     (let g1 = lock g;
          num_nodes = length (dag g1)
      in case printIt_loop [0..<num_nodes] g1 of
           Inl e \<Rightarrow> Inl e
         | Inr (lines, g2) \<Rightarrow> Inr (lines, unlock g2))"

definition clear :: "DirectedBoostGraph \<Rightarrow> DirectedBoostGraph" where
  "clear g = (let g1 = lock g in unlock (g1\<lparr>dag := [], exec_state := exec_state_empty\<rparr>))"


subsection \<open>Shortest paths\<close>

text \<open>\<open>dijkstra_shortest_paths\<close> is the graph library's routine, called with a distance map of
  \<open>std::size_t\<close> and the graph's own edge weights. It is modelled as the library documents it:
  every distance starts at the largest \<open>size_t\<close>, every predecessor at the vertex itself, the
  start at distance 0; a vertex is queued when it is first reached, the queued vertex of least
  distance is taken next (here the earliest queued among equals), and an edge \<open>(u, v)\<close> of
  weight \<open>w\<close> improves \<open>v\<close> only if \<open>d[u] + w < d[v]\<close> strictly, the sum taken in
  \<open>size_t\<close> and staying at the largest value once there. A vertex is queued at most once, so
  as many rounds as there are vertices empty the queue.\<close>

datatype color = White | Gray | Black

record dijkstra_state =
  dist :: "nat list"
  pred :: "VertexIdType list"
  colour :: "color list"
  queue :: "VertexIdType list"

definition size_t_max :: nat where
  "size_t_max = 2 ^ 64 - 1"

definition closed_plus :: "nat \<Rightarrow> nat \<Rightarrow> nat" where
  "closed_plus a b = (if a = size_t_max then size_t_max else if b = size_t_max then size_t_max
                      else (a + b) mod 2 ^ 64)"

definition weight_to_size_t :: "real \<Rightarrow> nat" where
  "weight_to_size_t w = nat \<lfloor>w\<rfloor> mod 2 ^ 64"

definition relax :: "VertexIdType \<Rightarrow> VertexIdType \<Rightarrow> real \<Rightarrow> dijkstra_state \<Rightarrow> dijkstra_state" where
  "relax u v w st =
     (let c = closed_plus (dist st ! u) (weight_to_size_t w)
      in if c < dist st ! v then st\<lparr>dist := (dist st)[v := c], pred := (pred st)[v := u]\<rparr> else st)"

fun examine_edges :: "VertexIdType \<Rightarrow> (VertexIdType \<times> real) list \<Rightarrow> dijkstra_state \<Rightarrow> dijkstra_state" where
  "examine_edges u [] st = st"
| "examine_edges u ((v, w) # es) st =
     examine_edges u es
       (case colour st ! v of
          White \<Rightarrow> (let st1 = relax u v w st
                    in st1\<lparr>colour := (colour st1)[v := Gray], queue := queue st1 @ [v]\<rparr>)
        | Gray \<Rightarrow> relax u v w st
        | Black \<Rightarrow> st)"

fun queue_top :: "nat list \<Rightarrow> VertexIdType \<Rightarrow> VertexIdType list \<Rightarrow> VertexIdType" where
  "queue_top d best [] = best"
| "queue_top d best (x # xs) = queue_top d (if d ! x < d ! best then x else best) xs"

fun dijkstra_loop :: "nat \<Rightarrow> stored_vertex list \<Rightarrow> dijkstra_state \<Rightarrow> dijkstra_state option" where
  "dijkstra_loop 0 vs st = (if queue st = [] then Some st else None)"
| "dijkstra_loop (Suc fuel) vs st =
     (case queue st of
        [] \<Rightarrow> Some st
      | x # xs \<Rightarrow>
          (let u = queue_top (dist st) x xs;
               st1 = st\<lparr>queue := remove1 u (queue st)\<rparr>;
               st2 = examine_edges u (out_edges (vs ! u)) st1
           in dijkstra_loop fuel vs (st2\<lparr>colour := (colour st2)[u := Black]\<rparr>)))"

definition dijkstra_shortest_paths :: "stored_vertex list \<Rightarrow> VertexIdType \<Rightarrow> dijkstra_state option" where
  "dijkstra_shortest_paths vs s =
     (let n = length vs
      in dijkstra_loop n vs
           \<lparr>dist = (replicate n size_t_max)[s := 0], pred = [0..<n],
            colour = (replicate n White)[s := Gray], queue = [s]\<rparr>)"

text \<open>\<open>computeShortestPath\<close> appends to the two vectors it is given, one entry per vertex in
  vertex-id order. A start index that is no vertex is out of range.\<close>

definition computeShortestPath ::
  "VertexIdType \<Rightarrow> real list \<Rightarrow> VertexIdType list \<Rightarrow> DirectedBoostGraph
     \<Rightarrow> error + ((real list \<times> VertexIdType list) \<times> DirectedBoostGraph)" where
  "computeShortestPath startIndex distances paths g =
     (let g1 = lock g
      in if startIndex < length (dag g1)
         then (case dijkstra_shortest_paths (dag g1) startIndex of
                 None \<Rightarrow> Inl OutOfRange
               | Some st \<Rightarrow> Inr ((distances @ map real (dist st), paths @ pred st), unlock g1))
         else Inl OutOfRange)"

subsection \<open>Views used to state the properties\<close>

text \<open>The out-edges of vertex \<open>k\<close> (none when \<open>k\<close> is no vertex), and their targets.\<close>

definition edges_of :: "stored_vertex list \<Rightarrow> VertexIdType \<Rightarrow> (VertexIdType \<times> real) list" where
  "edges_of vs k = (if k < length vs then out_edges (vs ! k) else [])"

definition dependees :: "DirectedBoostGraph \<Rightarrow> VertexIdType \<Rightarrow> VertexIdType list" where
  "dependees g k = map fst (edges_of (dag g) k)"

text \<open>The dependency edges as the specification words them: for the output operand one edge
  to every node of its epoch; for each input operand, consulted after the registrations made
  before it, one edge to the writer when the epoch is a write epoch and none otherwise; the
  output registered as written and every input as read by the new vertex.\<close>

definition spec_output_edges :: "TensorExecState \<Rightarrow> TensorHashType \<Rightarrow> VertexIdType list" where
  "spec_output_edges es T0 = (case fst (getTensorEpochNodes es T0) of None \<Rightarrow> [] | Some ns \<Rightarrow> ns)"

fun spec_input_edges :: "TensorExecState \<Rightarrow> VertexIdType \<Rightarrow> TensorHashType list \<Rightarrow> VertexIdType list" where
  "spec_input_edges es v [] = []"
| "spec_input_edges es v (Ti # rest) =
     (if snd (getTensorEpochNodes es Ti) < 0
      then (case writer es Ti of Some w \<Rightarrow> [w] | None \<Rightarrow> [])
      else [])
     @ spec_input_edges (registerTensorRead Ti v es) v rest"

definition spec_registered :: "TensorExecState \<Rightarrow> VertexIdType \<Rightarrow> TensorHashType \<Rightarrow> TensorHashType list \<Rightarrow> TensorExecState" where
  "spec_registered es v T0 ins = fold (\<lambda>Ti. registerTensorRead Ti v) ins (registerTensorWrite T0 v es)"

text \<open>A graph built by a sequence of \<open>addOperation\<close> calls, and the answer of
  \<open>dependencyExists\<close> on the graph so built.\<close>

fun addOperations :: "TensorOperation list \<Rightarrow> DirectedBoostGraph \<Rightarrow> error + DirectedBoostGraph" where
  "addOperations [] g = Inr g"
| "addOperations (opn # rest) g =
     (case addOperation opn g of Inl e \<Rightarrow> Inl e | Inr (v, g') \<Rightarrow> addOperations rest g')"

definition dependencyExists_after :: "TensorOperation list \<Rightarrow> VertexIdType \<Rightarrow> VertexIdType \<Rightarrow> error + bool" where
  "dependencyExists_after ops a b =
     (case addOperations ops new_graph of
        Inl e \<Rightarrow> Inl e
      | Inr g \<Rightarrow> map_sum id fst (dependencyExists a b g))"

definition addOperation_dependees :: "TensorOperation \<Rightarrow> DirectedBoostGraph \<Rightarrow> error + (VertexIdType \<times> VertexIdType list)" where
  "addOperation_dependees opn g =
     (case addOperation opn g of Inl e \<Rightarrow> Inl e | Inr (v, g') \<Rightarrow> Inr (v, dependees g' v))"

text \<open>The diamond 0\<rightarrow>1, 0\<rightarrow>2, 1\<rightarrow>3, 2\<rightarrow>3 built by \<open>addDependency\<close>, and the same vertices and
  edges with the weights 1, 5, 1, 1 written into the edge properties.\<close>

definition diamond_graph :: DirectedBoostGraph where
  "diamond_graph = addDependency 2 3 (addDependency 1 3 (addDependency 0 2 (addDependency 0 1 new_graph)))"

definition weighted_diamond :: DirectedBoostGraph where
  "weighted_diamond =
     new_graph\<lparr>dag := [\<lparr>out_edges = [(1, 1), (2, 5)], properties = None\<rparr>,
                        \<lparr>out_edges = [(3, 1)], properties = None\<rparr>,
                        \<lparr>out_edges = [(3, 1)], properties = None\<rparr>,
                        \<lparr>out_edges = [], properties = None\<rparr>]\<rparr>"

definition shortest_path_from :: "VertexIdType \<Rightarrow> DirectedBoostGraph \<Rightarrow> error + (real list \<times> VertexIdType list)" where
  "shortest_path_from s g = map_sum id fst (computeShortestPath s [] [] g)"

text \<open>The public operations as calls, and the lock events one call adds to the log.\<close>

datatype graph_call =
    AddOperation TensorOperation
  | AddDependency VertexIdType VertexIdType
  | DependencyExists VertexIdType VertexIdType
  | GetNodeProperties VertexIdType
  | GetNodeDegree VertexIdType
  | GetNumNodes
  | GetNumDependencies
  | GetNeighborList VertexIdType
  | ComputeShortestPath VertexIdType
  | PrintIt
  | Clear

fun run_call :: "graph_call \<Rightarrow> DirectedBoostGraph \<Rightarrow> error + DirectedBoostGraph" where
  "run_call (AddOperation opn) g = map_sum id snd (addOperation opn g)"
| "run_call (AddDependency a b) g = Inr (addDependency a b g)"
| "run_call (DependencyExists a b) g = map_sum id snd (dependencyExists a b g)"
| "run_call (GetNodeProperties v) g = map_sum id snd (getNodeProperties v g)"
| "run_call (GetNodeDegree v) g = map_sum id snd (getNodeDegree v g)"
| "run_call GetNumNodes g = Inr (snd (getNumNodes g))"
| "run_call GetNumDependencies g = Inr (snd (getNumDependencies g))"
| "run_call (GetNeighborList v) g = map_sum id snd (getNeighborList v g)"
| "run_call (ComputeShortestPath s) g = map_sum id snd (computeShortestPath s [] [] g)"
| "run_call PrintIt g = map_sum id snd (printIt g)"
| "run_call Clear g = Inr (clear g)"

definition call_events :: "graph_call \<Rightarrow> DirectedBoostGraph \<Rightarrow> error + lock_event list" where
  "call_events c g = map_sum id (\<lambda>g'. drop (length (mtx_log g)) (mtx_log g')) (run_call c g)"

text \<open>How many times the mutex is held after a sequence of events, starting from \<open>d\<close>
  (\<open>None\<close> if it is released while not held), and the largest number reached.\<close>

fun held_after :: "nat \<Rightarrow> lock_event list \<Rightarrow> nat option" where
  "held_after d [] = Some d"
| "held_after d (Lock # es) = held_after (Suc d) es"
| "held_after d (Unlock # es) = (case d of 0 \<Rightarrow> None | Suc d' \<Rightarrow> held_after d' es)"

fun max_held :: "nat \<Rightarrow> lock_event list \<Rightarrow> nat" where
  "max_held d [] = d"
| "max_held d (Lock # es) = max d (max_held (Suc d) es)"
| "max_held d (Unlock # es) = max d (max_held (d - 1) es)"

text \<open>\<open>k\<close> nested calls, each taking and releasing the mutex; and the operations whose body
  calls another public operation.\<close>

definition lock_pairs :: "nat \<Rightarrow> lock_event list" where
  "lock_pairs k = concat (replicate k [Lock, Unlock])"

definition calls_public_operation :: "graph_call \<Rightarrow> bool" where
  "calls_public_operation c =
     (case c of AddOperation opn \<Rightarrow> True | GetNodeDegree v \<Rightarrow> True | PrintIt \<Rightarrow> True | _ \<Rightarrow> False)"

section \<open>The contraction-sequence planner (contraction\_seq\_optimizer\_heuro.cpp)\<close>

subsection \<open>Data\<close>

record ContrTriple =
  result_id :: nat
  left_id :: nat
  right_id :: nat

text \<open>Modelled from the spec: the class \<open>TensorNetwork\<close> is not among the source files.
  Spec 4.3 and 6: a network is iterated as \<open>(id, tensor)\<close> pairs, the output tensor at id 0
  and the input factors at the other ids, the pairs \<open>(i, j)\<close> of a pass having \<open>i < j\<close>, so
  the pairs are kept in increasing order of the id; \<open>getNumTensors()\<close> is the number \<open>n\<close> of
  input factors, taken as an \<open>unsigned int\<close> like the \<open>getNum...\<close> accessors that the
  repository's headers declare (\<open>unsigned int getNumOperands() const\<close>,
  \<open>unsigned int getNumScalars() const\<close>); \<open>mergeTensors(i, j, new_id)\<close> fuses the factors \<open>i\<close> and
  \<open>j\<close> into a new intermediate factor with the given id, removing the originals, and
  returns whether it did: it does not when \<open>i\<close> or \<open>j\<close> is no input factor, when they are
  the same, or when the given id is 0 or is in the network already. The tensors themselves
  stay abstract: the tensor of the fused factor (\<open>mrg\<close>) and the cost routine
  \<open>getTensorContractionCost\<close> (\<open>cost\<close>) are parameters.\<close>

type_synonym 'a TensorNetwork = "(nat \<times> 'a) list"

definition getNumTensors :: "'a TensorNetwork \<Rightarrow> 32 word" where
  "getNumTensors net = of_nat (length (filter (\<lambda>p. fst p \<noteq> 0) net))"

definition mergeTensors ::
  "('a \<Rightarrow> 'a \<Rightarrow> 'a) \<Rightarrow> nat \<Rightarrow> nat \<Rightarrow> nat \<Rightarrow> 'a TensorNetwork \<Rightarrow> 'a TensorNetwork option" where
  "mergeTensors mrg i j new_id net =
     (case map_of net i of
        None \<Rightarrow> None
      | Some ti \<Rightarrow>
          (case map_of net j of
             None \<Rightarrow> None
           | Some tj \<Rightarrow>
               if i \<noteq> j \<and> i \<noteq> 0 \<and> j \<noteq> 0 \<and> new_id \<noteq> 0 \<and> new_id \<notin> fst ` set net
               then Some (insort_key fst (new_id, mrg ti tj) (filter (\<lambda>p. fst p \<noteq> i \<and> fst p \<noteq> j) net))
               else None))"

text \<open>A contraction path: the current state of the network, the contraction sequence that
  led to it, and the total flop count so far.\<close>

type_synonym 'a ContrPath = "'a TensorNetwork \<times> ContrTriple list \<times> real"

subsection \<open>The priority queue\<close>

text \<open>\<open>std::priority_queue\<close> with \<open>cmpPaths\<close> as its ordering: \<open>top()\<close> is an entry that
  is not below any other, that is, one of the largest flop count, and \<open>pop()\<close> removes it.
  The queue is kept as the list of its entries from the top down; which of several entries of
  equal flop count is nearer the top is left open by the library, and here a new entry goes
  below the entries of equal count.\<close>

definition cmpPaths :: "'a ContrPath \<Rightarrow> 'a ContrPath \<Rightarrow> bool" where
  "cmpPaths left right = (snd (snd left) < snd (snd right))"

fun priq_emplace :: "'a ContrPath \<Rightarrow> 'a ContrPath list \<Rightarrow> 'a ContrPath list" where
  "priq_emplace x [] = [x]"
| "priq_emplace x (y # ys) = (if cmpPaths y x then x # y # ys else y # priq_emplace x ys)"

definition priq_pop :: "'a ContrPath list \<Rightarrow> 'a ContrPath list" where
  "priq_pop priq = tl priq"

subsection \<open>determineContractionSequence\<close>

text \<open>The body of the innermost loop, for the pair of factors \<open>(i, tensor_i)\<close> and
  \<open>(j, tensor_j)\<close> of the parental network: the cost, the merge in a copy of the network
  (\<open>assert(contracted)\<close> stops the program when it fails), the extended sequence, the new
  entry of the queue, and the removal of the top entry when the queue has grown beyond
  \<open>num_walkers_\<close>. \<open>last_pass\<close> is \<open>pass == numContractions - 1\<close>.\<close>

definition new_candidate ::
  "('a \<Rightarrow> 'a \<Rightarrow> real) \<Rightarrow> ('a \<Rightarrow> 'a \<Rightarrow> 'a) \<Rightarrow> nat \<Rightarrow> nat \<Rightarrow> bool
     \<Rightarrow> 'a ContrPath \<Rightarrow> nat \<times> 'a \<Rightarrow> nat \<times> 'a \<Rightarrow> 'a ContrPath list \<Rightarrow> error + 'a ContrPath list" where
  "new_candidate cost mrg num_walkers intermediate_id last_pass contrPath it jt priq =
     (let contrCost = cost (snd it) (snd jt)
      in case mergeTensors mrg (fst it) (fst jt) intermediate_id (fst contrPath) of
           None \<Rightarrow> Inl AssertionFailed
         | Some tensNet \<Rightarrow>
             (let cSeq = fst (snd contrPath)
                    @ [if last_pass then \<lparr>result_id = 0, left_id = fst it, right_id = fst jt\<rparr>
                       else \<lparr>result_id = intermediate_id, left_id = fst it, right_id = fst jt\<rparr>];
                  priq1 = priq_emplace (tensNet, cSeq, contrCost + snd (snd contrPath)) priq
              in Inr (if length priq1 > num_walkers then priq_pop priq1 else priq1)))"

text \<open>The three loops around it: over the factors \<open>j\<close> after \<open>i\<close>, over the factors \<open>i\<close>,
  and over the candidate paths; the output tensor 0 is skipped.\<close>

fun loop_j ::
  "('a ContrPath \<Rightarrow> nat \<times> 'a \<Rightarrow> nat \<times> 'a \<Rightarrow> 'a ContrPath list \<Rightarrow> error + 'a ContrPath list)
     \<Rightarrow> 'a ContrPath \<Rightarrow> nat \<times> 'a \<Rightarrow> (nat \<times> 'a) list \<Rightarrow> 'a ContrPath list \<Rightarrow> error + 'a ContrPath list" where
  "loop_j body contrPath it [] priq = Inr priq"
| "loop_j body contrPath it (jt # rest) priq =
     (if fst jt \<noteq> 0
      then (case body contrPath it jt priq of
              Inl e \<Rightarrow> Inl e
            | Inr priq' \<Rightarrow> loop_j body contrPath it rest priq')
      else loop_j body contrPath it rest priq)"

fun loop_i ::
  "('a ContrPath \<Rightarrow> nat \<times> 'a \<Rightarrow> nat \<times> 'a \<Rightarrow> 'a ContrPath list \<Rightarrow> error + 'a ContrPath list)
     \<Rightarrow> 'a ContrPath \<Rightarrow> (nat \<times> 'a) list \<Rightarrow> 'a ContrPath list \<Rightarrow> error + 'a ContrPath list" where
  "loop_i body contrPath [] priq = Inr priq"
| "loop_i body contrPath (it # rest) priq =
     (if fst it \<noteq> 0
      then (case loop_j body contrPath it rest priq of
              Inl e \<Rightarrow> Inl e
            | Inr priq' \<Rightarrow> loop_i body contrPath rest priq')
      else loop_i body contrPath rest priq)"

fun loop_paths ::
  "('a ContrPath \<Rightarrow> nat \<times> 'a \<Rightarrow> nat \<times> 'a \<Rightarrow> 'a ContrPath list \<Rightarrow> error + 'a ContrPath list)
     \<Rightarrow> 'a ContrPath list \<Rightarrow> 'a ContrPath list \<Rightarrow> error + 'a ContrPath list" where
  "loop_paths body [] priq = Inr priq"
| "loop_paths body (contrPath # rest) priq =
     (case loop_i body contrPath (fst contrPath) priq of
        Inl e \<Rightarrow> Inl e
      | Inr priq' \<Rightarrow> loop_paths body rest priq')"

text \<open>\<open>while(priq.size() > 1) priq.pop();\<close>\<close>

fun drain_to_one :: "'a ContrPath list \<Rightarrow> 'a ContrPath list" where
  "drain_to_one (x # y # ys) = drain_to_one (y # ys)"
| "drain_to_one priq = priq"

text \<open>The loop over the passes. The generator of intermediate ids is a function from its
  state to the id it returns and its next state. \<open>pass\<close> counts up to \<open>numContractions\<close>, which
  it never exceeds, so it is a natural number. On the last pass the queue is drained to one
  entry, whose sequence and flop count are the result; \<open>top()\<close> of an empty queue is an
  error. On the other passes the queue is emptied into \<open>inputPaths\<close>, from the top down.\<close>

function passes ::
  "('a \<Rightarrow> 'a \<Rightarrow> real) \<Rightarrow> ('a \<Rightarrow> 'a \<Rightarrow> 'a) \<Rightarrow> nat \<Rightarrow> ('g \<Rightarrow> nat \<times> 'g) \<Rightarrow> nat \<Rightarrow> nat \<Rightarrow> 'g
     \<Rightarrow> 'a ContrPath list \<Rightarrow> 'a ContrPath list \<Rightarrow> ContrTriple list \<Rightarrow> real
     \<Rightarrow> error + (ContrTriple list \<times> real \<times> 'g)" where
  "passes cost mrg num_walkers gen numContractions pass gs inputPaths priq contr_seq flops =
     (if pass < numContractions
      then (case gen gs of
              (intermediate_id, gs') \<Rightarrow>
                (case loop_paths (new_candidate cost mrg num_walkers intermediate_id
                                    (pass = numContractions - 1)) inputPaths priq of
                   Inl e \<Rightarrow> Inl e
                 | Inr priq1 \<Rightarrow>
                     if pass = numContractions - 1
                     then (case drain_to_one priq1 of
                             [] \<Rightarrow> Inl EmptyQueue
                           | top_path # priq2 \<Rightarrow>
                               passes cost mrg num_walkers gen numContractions (Suc pass) gs'
                                 [] (priq_pop (top_path # priq2))
                                 (fst (snd top_path)) (snd (snd top_path)))
                     else passes cost mrg num_walkers gen numContractions (Suc pass) gs'
                            priq1 [] contr_seq flops))
      else Inr (contr_seq, flops, gs))"
  by pat_completeness auto
termination
  by (relation "measure (\<lambda>(cost, mrg, num_walkers, gen, numContractions, pass, rest). numContractions - pass)")
     auto

declare passes.simps [simp del]

text \<open>\<open>numContractions\<close> is \<open>network.getNumTensors() - 1\<close> in \<open>unsigned int\<close>: for a network
  without input factors it is the largest value, not \<open>-1\<close>. The result is the sequence
  written to \<open>contr_seq\<close>, the returned flop count, and the state of the generator.\<close>

definition determineContractionSequence ::
  "('a \<Rightarrow> 'a \<Rightarrow> real) \<Rightarrow> ('a \<Rightarrow> 'a \<Rightarrow> 'a) \<Rightarrow> nat \<Rightarrow> 'a TensorNetwork \<Rightarrow> ('g \<Rightarrow> nat \<times> 'g) \<Rightarrow> 'g
     \<Rightarrow> error + (ContrTriple list \<times> real \<times> 'g)" where
  "determineContractionSequence cost mrg num_walkers network gen gs =
     (let numContractions = getNumTensors network - 1
      in if numContractions = 0 then Inr ([], 0, gs)
         else passes cost mrg num_walkers gen (unat numContractions) 0 gs
                [(network, [], 0)] [] [] 0)"

subsection \<open>Views used to state the properties of the planner\<close>

text \<open>A generator that counts up from its state, and the ids a generator returns in its
  first \<open>k\<close> calls.\<close>

definition counter :: "nat \<Rightarrow> nat \<times> nat" where
  "counter c = (c, Suc c)"

fun generated :: "('g \<Rightarrow> nat \<times> 'g) \<Rightarrow> 'g \<Rightarrow> nat \<Rightarrow> nat list" where
  "generated gen gs 0 = []"
| "generated gen gs (Suc k) = fst (gen gs) # generated gen (snd (gen gs)) k"

text \<open>The number of input factors of a network; what holds of the result of a loop that may
  fail; and the shape of a path of pass \<open>p\<close> for a network of \<open>n0\<close> input factors.\<close>

definition num_inputs :: "'a TensorNetwork \<Rightarrow> nat" where
  "num_inputs net = length (filter (\<lambda>p. fst p \<noteq> 0) net)"

definition ok_result :: "(error \<Rightarrow> bool) \<Rightarrow> ('q \<Rightarrow> bool) \<Rightarrow> error + 'q \<Rightarrow> bool" where
  "ok_result E Q r = (case r of Inl e \<Rightarrow> E e | Inr q \<Rightarrow> Q q)"

definition path_shape :: "nat \<Rightarrow> nat \<Rightarrow> 'a ContrPath \<Rightarrow> bool" where
  "path_shape n0 p x \<longleftrightarrow> distinct (map fst (fst x)) \<and> num_inputs (fst x) + p = n0"

text \<open>Replaying a contraction sequence on a network, the \<open>k\<close>-th step merging into the
  \<open>k\<close>-th generated id: it succeeds if at every step the left and the right id are input
  factors of the network as it is then. A path of pass \<open>p\<close> is the replay of its own
  sequence, whose result ids are the first \<open>p\<close> generated ids; a complete sequence has one
  triple per generated id, the last with result id 0.\<close>

definition is_factor :: "'a TensorNetwork \<Rightarrow> nat \<Rightarrow> bool" where
  "is_factor net i \<longleftrightarrow> i \<noteq> 0 \<and> i \<in> fst ` set net"

fun replay :: "('a \<Rightarrow> 'a \<Rightarrow> 'a) \<Rightarrow> 'a TensorNetwork \<Rightarrow> ContrTriple list \<Rightarrow> nat list \<Rightarrow> 'a TensorNetwork option" where
  "replay mrg net [] ids = Some net"
| "replay mrg net (t # ts) [] = None"
| "replay mrg net (t # ts) (iid # ids) =
     (if is_factor net (left_id t) \<and> is_factor net (right_id t)
      then (case mergeTensors mrg (left_id t) (right_id t) iid net of
              None \<Rightarrow> None
            | Some net' \<Rightarrow> replay mrg net' ts ids)
      else None)"

definition path_trace :: "('a \<Rightarrow> 'a \<Rightarrow> 'a) \<Rightarrow> 'a TensorNetwork \<Rightarrow> nat list \<Rightarrow> nat \<Rightarrow> 'a ContrPath \<Rightarrow> bool" where
  "path_trace mrg net0 ids p x \<longleftrightarrow>
     path_shape (num_inputs net0) p x
     \<and> replay mrg net0 (fst (snd x)) ids = Some (fst x)
     \<and> map result_id (fst (snd x)) = take p ids
     \<and> fst ` set (fst x) \<subseteq> fst ` set net0 \<union> set (take p ids)"

definition sequence_complete :: "('a \<Rightarrow> 'a \<Rightarrow> 'a) \<Rightarrow> 'a TensorNetwork \<Rightarrow> nat list \<Rightarrow> ContrTriple list \<Rightarrow> bool" where
  "sequence_complete mrg net0 ids sq \<longleftrightarrow>
     length sq = length ids \<and> result_id (last sq) = 0
     \<and> map result_id (butlast sq) = butlast ids \<and> replay mrg net0 sq ids \<noteq> None"

text \<open>The two statements that put a candidate into the queue, as one function; the body of
  the innermost loop with the queue replaced by the plain list of the candidates in the order
  they are produced; and the same insertion and removal on the flop counts alone.\<close>

definition enqueue :: "nat \<Rightarrow> 'a ContrPath \<Rightarrow> 'a ContrPath list \<Rightarrow> 'a ContrPath list" where
  "enqueue W x priq = (let priq1 = priq_emplace x priq in if length priq1 > W then priq_pop priq1 else priq1)"

definition collect_candidate ::
  "('a \<Rightarrow> 'a \<Rightarrow> real) \<Rightarrow> ('a \<Rightarrow> 'a \<Rightarrow> 'a) \<Rightarrow> nat \<Rightarrow> bool
     \<Rightarrow> 'a ContrPath \<Rightarrow> nat \<times> 'a \<Rightarrow> nat \<times> 'a \<Rightarrow> 'a ContrPath list \<Rightarrow> error + 'a ContrPath list" where
  "collect_candidate cost mrg intermediate_id last_pass contrPath it jt cands =
     (case mergeTensors mrg (fst it) (fst jt) intermediate_id (fst contrPath) of
        None \<Rightarrow> Inl AssertionFailed
      | Some tensNet \<Rightarrow>
          Inr (cands @ [(tensNet,
                         fst (snd contrPath)
                           @ [if last_pass then \<lparr>result_id = 0, left_id = fst it, right_id = fst jt\<rparr>
                              else \<lparr>result_id = intermediate_id, left_id = fst it, right_id = fst jt\<rparr>],
                         cost (snd it) (snd jt) + snd (snd contrPath))]))"

fun ins_desc :: "real \<Rightarrow> real list \<Rightarrow> real list" where
  "ins_desc a [] = [a]"
| "ins_desc a (b # bs) = (if b < a then a # b # bs else b # ins_desc a bs)"

definition enq_cost :: "nat \<Rightarrow> real \<Rightarrow> real list \<Rightarrow> real list" where
  "enq_cost W a l = (let l1 = ins_desc a l in if length l1 > W then tl l1 else l1)"


text \<open>A queue whose flop counts do not increase from the top down; and a loop body that only
  appends to the list it is given.\<close>

definition desc :: "'a ContrPath list \<Rightarrow> bool" where
  "desc q \<longleftrightarrow> sorted (rev (map (snd \<circ> snd) q))"

definition appending ::
  "('a ContrPath \<Rightarrow> nat \<times> 'a \<Rightarrow> nat \<times> 'a \<Rightarrow> 'a ContrPath list \<Rightarrow> error + 'a ContrPath list) \<Rightarrow> bool" where
  "appending body \<longleftrightarrow>
     (\<forall>P it jt acc. body P it jt acc = map_sum id ((@) acc) (body P it jt []))"

text \<open>The candidate paths \<open>inputPaths\<close> and the state of the generator with which a pass is
  entered: the first pass with the network alone, every later one with the queue that the
  pass before it, not being the last, left when started from the empty queue.\<close>

fun pass_input ::
  "('a \<Rightarrow> 'a \<Rightarrow> real) \<Rightarrow> ('a \<Rightarrow> 'a \<Rightarrow> 'a) \<Rightarrow> nat \<Rightarrow> ('g \<Rightarrow> nat \<times> 'g) \<Rightarrow> 'g \<Rightarrow> 'a TensorNetwork \<Rightarrow> nat
     \<Rightarrow> error + ('a ContrPath list \<times> 'g)" where
  "pass_input cost mrg num_walkers gen gs network 0 = Inr ([(network, [], 0)], gs)"
| "pass_input cost mrg num_walkers gen gs network (Suc k) =
     (case pass_input cost mrg num_walkers gen gs network k of
        Inl e \<Rightarrow> Inl e
      | Inr (inputPaths, gs_k) \<Rightarrow>
          (case loop_paths (new_candidate cost mrg num_walkers (fst (gen gs_k)) False) inputPaths [] of
             Inl e \<Rightarrow> Inl e
           | Inr priq \<Rightarrow> Inr (priq, snd (gen gs_k))))"

text \<open>A network of four factors for the usual cost model: a tensor is the list of its index
  labels, the index \<open>l\<close> has the extent \<open>demo_extent l\<close>, contracting two tensors costs the
  product of the extents of all their indices and leaves the indices that only one of them
  has.\<close>

definition demo_extent :: "nat \<Rightarrow> real" where
  "demo_extent l = (if l = 0 then 7 else if l = 1 then 2 else if l = 2 then 10 else if l = 3 then 4 else 5)"

definition demo_cost :: "nat list \<Rightarrow> nat list \<Rightarrow> real" where
  "demo_cost a b = prod_list (map demo_extent (a @ filter (\<lambda>l. l \<notin> set a) b))"

definition demo_merge :: "nat list \<Rightarrow> nat list \<Rightarrow> nat list" where
  "demo_merge a b = filter (\<lambda>l. l \<notin> set b) a @ filter (\<lambda>l. l \<notin> set a) b"

definition demo_network :: "nat list TensorNetwork" where
  "demo_network = [(0, []), (1, [4]), (2, [1, 3]), (3, [0, 3, 4]), (4, [1, 2])]"



section \<open>Properties of the graph\<close>

subsection \<open>Edges and execution state\<close>

lemma edges_of_add_edge:
  "edges_of (add_edge u v vs) = (edges_of vs)(u := edges_of vs u @ [(v, default_edge_weight)])"
  by (rule ext) (auto simp: edges_of_def add_edge_def Let_def nth_append nth_list_update empty_vertex_def)

lemma length_add_edge: "length vs \<le> length (add_edge u v vs)"
  by (simp add: add_edge_def Let_def)

lemma addDependency_simps:
  "exec_state (addDependency u v g) = exec_state g"
  "dag (addDependency u v g) = add_edge u v (dag g)"
  "mtx_log (addDependency u v g) = mtx_log g @ [Lock, Unlock]"
  by (simp_all add: addDependency_def lock_def unlock_def Let_def)

lemma fold_addDependency_exec:
  "exec_state (fold (addDependency u) ns g) = exec_state g"
  by (induction ns arbitrary: g) (simp_all add: addDependency_simps)

lemma fold_addDependency_dependees:
  "dependees (fold (addDependency u) ns g) = (dependees g)(u := dependees g u @ ns)"
proof (induction ns arbitrary: g)
  case Nil
  then show ?case by simp
next
  case (Cons n ns)
  have "dependees (addDependency u n g) = (dependees g)(u := dependees g u @ [n])"
    by (rule ext) (simp add: dependees_def addDependency_simps edges_of_add_edge)
  then show ?case using Cons.IH [of "addDependency u n g"] by (auto simp: fun_eq_iff)
qed

lemma input_operands_spec:
  "\<exists>g'. input_operands v ins g = Inr g'
     \<and> dependees g' = (dependees g)(v := dependees g v @ spec_input_edges (exec_state g) v ins)
     \<and> exec_state g' = fold (\<lambda>Ti. registerTensorRead Ti v) ins (exec_state g)"
proof (induction ins arbitrary: g)
  case Nil
  then show ?case by simp
next
  case (Cons Ti rest)
  show ?case
  proof (cases "writer (exec_state g) Ti")
    case None
    let ?g1 = "g\<lparr>exec_state := registerTensorRead Ti v (exec_state g)\<rparr>"
    from None have e: "getTensorEpochNodes (exec_state g) Ti
        = (if readers (exec_state g) Ti = [] then None else Some (readers (exec_state g) Ti),
           int (length (readers (exec_state g) Ti)))"
      by (simp add: getTensorEpochNodes_def)
    have d: "dependees ?g1 = dependees g" by (rule ext) (simp add: dependees_def)
    from Cons.IH [of ?g1] e d show ?thesis by simp
  next
    case (Some w)
    let ?g0 = "fold (addDependency v) [w] g"
    let ?g1 = "?g0\<lparr>exec_state := registerTensorRead Ti v (exec_state ?g0)\<rparr>"
    from Some have e: "getTensorEpochNodes (exec_state g) Ti = (Some [w], - 1)"
      by (simp add: getTensorEpochNodes_def)
    have "dependees ?g1 = dependees ?g0" by (rule ext) (simp add: dependees_def)
    then have d: "dependees ?g1 = (dependees g)(v := dependees g v @ [w])"
      by (simp only: fold_addDependency_dependees)
    have x: "exec_state ?g1 = registerTensorRead Ti v (exec_state g)"
      by (simp add: addDependency_simps)
    from Cons.IH [of ?g1] obtain g' where g': "input_operands v rest ?g1 = Inr g'"
      "dependees g' = (dependees ?g1)(v := dependees ?g1 v @ spec_input_edges (exec_state ?g1) v rest)"
      "exec_state g' = fold (\<lambda>Ti. registerTensorRead Ti v) rest (exec_state ?g1)"
      by blast
    have "input_operands v (Ti # rest) g = Inr g'" using e g'(1) by simp
    moreover have "dependees g' = (dependees g)(v := dependees g v @ spec_input_edges (exec_state g) v (Ti # rest))"
      using g'(2) d x e Some by (intro ext) simp
    moreover have "exec_state g' = fold (\<lambda>Ti. registerTensorRead Ti v) (Ti # rest) (exec_state g)"
      using g'(3) x by simp
    ultimately show ?thesis by blast
  qed
qed



lemmas graph_eval = new_graph_def lock_def unlock_def exec_state_empty_def addDependency_def
  add_edge_def default_edge_weight_def empty_vertex_def Let_def getTensorEpochNodes_def
  registerTensorWrite_def registerTensorRead_def

text \<open>C1. For every operation with an output operand \<open>T0\<close> and input operands \<open>ins\<close>,
  \<open>addOperation\<close> returns the new vertex \<open>v\<close> (the former number of vertices); the
  out-edges of every other vertex are unchanged, and the out-edges of \<open>v\<close> are exactly one edge
  to every node returned by \<open>getTensorEpochNodes\<close> for \<open>T0\<close>, followed, for each input operand
  in turn, by one edge to the writer node when its epoch is a write epoch and by no edge when
  it is a read epoch. Afterwards the output is registered as written by \<open>v\<close> and each input as
  read by \<open>v\<close>.\<close>

theorem addOperation_edges:
  assumes "operands opn = T0 # ins"
  shows "\<exists>g'. addOperation opn g = Inr (length (dag g), g')
           \<and> dependees g' = (dependees g)(length (dag g) :=
                 spec_output_edges (exec_state g) T0
                 @ spec_input_edges (registerTensorWrite T0 (length (dag g)) (exec_state g)) (length (dag g)) ins)
           \<and> exec_state g' = spec_registered (exec_state g) (length (dag g)) T0 ins"
proof -
  let ?v = "length (dag g)"
  let ?g2 = "(lock g)\<lparr>dag := dag (lock g) @ [\<lparr>out_edges = [], properties = Some \<lparr>op = opn, node_id = ?v\<rparr>\<rparr>]\<rparr>"
  let ?ns = "spec_output_edges (exec_state g) T0"
  let ?g3 = "fold (addDependency ?v) ?ns ?g2"
  let ?g4 = "?g3\<lparr>exec_state := registerTensorWrite T0 ?v (exec_state ?g3)\<rparr>"
  have d2: "dependees ?g2 = dependees g"
    by (rule ext) (auto simp: dependees_def edges_of_def lock_def nth_append)
  have e2: "exec_state ?g2 = exec_state g" by (simp add: lock_def)
  obtain nodes epoch where ge: "getTensorEpochNodes (exec_state ?g2) T0 = (nodes, epoch)"
    by fastforce
  have g3: "(case nodes of None \<Rightarrow> ?g2 | Some ns \<Rightarrow> fold (addDependency ?v) ns ?g2) = ?g3"
    using ge by (simp add: spec_output_edges_def e2 split: option.splits)
  have d4: "dependees ?g4 = (dependees g)(?v := ?ns)"
  proof -
    have "dependees ?g4 = dependees ?g3" by (rule ext) (simp add: dependees_def)
    also have "\<dots> = (dependees ?g2)(?v := dependees ?g2 ?v @ ?ns)"
      by (rule fold_addDependency_dependees)
    also have "\<dots> = (dependees g)(?v := ?ns)"
      by (simp add: d2) (simp add: dependees_def edges_of_def)
    finally show ?thesis .
  qed
  have e4: "exec_state ?g4 = registerTensorWrite T0 ?v (exec_state g)"
    by (simp add: fold_addDependency_exec e2)
  from input_operands_spec [of ?v ins ?g4] obtain g5 where g5:
    "input_operands ?v ins ?g4 = Inr g5"
    "dependees g5 = (dependees ?g4)(?v := dependees ?g4 ?v @ spec_input_edges (exec_state ?g4) ?v ins)"
    "exec_state g5 = fold (\<lambda>Ti. registerTensorRead Ti ?v) ins (exec_state ?g4)"
    by blast
  have len: "length (dag (lock g)) = ?v" by (simp add: lock_def)
  have "addOperation opn g = Inr (?v, unlock g5)"
    unfolding addOperation_def Let_def len
    by (simp only: assms list.case ge prod.case g3 g5(1) sum.case)
  moreover have "dependees (unlock g5) = (dependees g)(?v := ?ns @ spec_input_edges (registerTensorWrite T0 ?v (exec_state g)) ?v ins)"
  proof -
    have "dependees (unlock g5) = dependees g5"
      by (rule ext) (simp add: dependees_def unlock_def)
    then show ?thesis using g5(2) d4 e4 by simp
  qed
  moreover have "exec_state (unlock g5) = spec_registered (exec_state g) ?v T0 ins"
    using g5(3) e4 by (simp add: unlock_def spec_registered_def)
  ultimately show ?thesis by blast
qed

theorem addOperation_edges_witness:
  "operands \<lparr>opcode = 0, operands = [1, 2]\<rparr> = 1 # [2]
   \<and> (\<exists>g'. addOperation \<lparr>opcode = 0, operands = [1, 2]\<rparr>
              \<lparr>dag = [empty_vertex], exec_state = registerTensorWrite 2 0 exec_state_empty, mtx_log = []\<rparr>
            = Inr (1, g')
          \<and> dependees g' 1 = [0] \<and> dependees g' 0 = []
          \<and> writer (exec_state g') 1 = Some 1 \<and> readers (exec_state g') 2 = [1])"
proof -
  let ?opn = "\<lparr>opcode = 0, operands = [1, 2]\<rparr>"
  let ?g = "\<lparr>dag = [empty_vertex], exec_state = registerTensorWrite 2 0 exec_state_empty, mtx_log = []\<rparr>"
  have h: "operands ?opn = 1 # [2]" by simp
  from addOperation_edges [OF h, of ?g] obtain g' where g':
    "addOperation ?opn ?g = Inr (length (dag ?g), g')"
    "dependees g' = (dependees ?g)(length (dag ?g) :=
        spec_output_edges (exec_state ?g) 1
        @ spec_input_edges (registerTensorWrite 1 (length (dag ?g)) (exec_state ?g)) (length (dag ?g)) [2])"
    "exec_state g' = spec_registered (exec_state ?g) (length (dag ?g)) 1 [2]"
    by blast
  from g'(1) have "addOperation ?opn ?g = Inr (1, g')" by simp
  moreover from g'(2) have "dependees g' 1 = [0]" "dependees g' 0 = []"
    by (simp_all add: spec_output_edges_def graph_eval dependees_def edges_of_def)
  moreover from g'(3) have "writer (exec_state g') 1 = Some 1" "readers (exec_state g') 2 = [1]"
    by (simp_all add: spec_registered_def graph_eval)
  ultimately show ?thesis using h by blast
qed

text \<open>C2. On the graph built from the empty graph by the single call of \<open>addOperation\<close> with an
  operation whose output tensor is also its input, \<open>dependencyExists(0, 0)\<close> returns true,
  although 0 is not below 0 in vertex-id order: the edge points from the new vertex to
  itself.\<close>

theorem dependencyExists_self_after_addOperation:
  "dependencyExists_after [\<lparr>opcode = 0, operands = [7, 7]\<rparr>] 0 0 = Inr True \<and> \<not> (0 :: VertexIdType) < 0"
  by (simp add: dependencyExists_after_def addOperation_def dependencyExists_def graph_eval)

text \<open>C8. For the operation with operands \<open>[7, 7]\<close> (tensor 7 is both the output and an
  input), \<open>addOperation\<close> on the empty graph returns vertex 0 with the dependees \<open>[0]\<close>, a
  self-edge; after a vertex 0 that wrote tensor 7, the same operation becomes vertex 1 with
  the dependees \<open>[0, 1]\<close>.\<close>

theorem addOperation_aliased_self_edge:
  "addOperation_dependees \<lparr>opcode = 0, operands = [7, 7]\<rparr> new_graph = Inr (0, [0])
   \<and> addOperation_dependees \<lparr>opcode = 0, operands = [7, 7]\<rparr>
        \<lparr>dag = [empty_vertex], exec_state = registerTensorWrite 7 0 exec_state_empty, mtx_log = []\<rparr>
      = Inr (1, [0, 1])"
  by (simp add: addOperation_dependees_def addOperation_def dependees_def edges_of_def graph_eval)

subsection \<open>Shortest paths on the diamond\<close>

lemma dag_diamond_graph:
  "dag diamond_graph =
     [\<lparr>out_edges = [(1, 0), (2, 0)], properties = None\<rparr>,
      \<lparr>out_edges = [(3, 0)], properties = None\<rparr>,
      \<lparr>out_edges = [(3, 0)], properties = None\<rparr>,
      \<lparr>out_edges = [], properties = None\<rparr>]"
  by (simp add: diamond_graph_def graph_eval)

lemmas dijkstra_eval = shortest_path_from_def computeShortestPath_def dijkstra_shortest_paths_def
  relax_def closed_plus_def weight_to_size_t_def size_t_max_def lock_def unlock_def Let_def

text \<open>C7, as the claim states it, fails: on the diamond built by \<open>addDependency\<close> the distances
  are not \<open>[0, 1, 5, 2]\<close> but \<open>[0, 0, 0, 0]\<close>, and the weight an edge gets without an explicit
  weight is not 1.\<close>

theorem diamond_distances_counterexample:
  "map_sum id fst (shortest_path_from 0 diamond_graph) = Inr [0, 0, 0, 0]
   \<and> map_sum id fst (shortest_path_from 0 diamond_graph) \<noteq> Inr [0, 1, 5, 2]
   \<and> default_edge_weight \<noteq> 1"
  by (simp add: dijkstra_eval dag_diamond_graph default_edge_weight_def)

text \<open>C7, amended. On the diamond with vertices 0..3 and edges 0\<rightarrow>1, 0\<rightarrow>2, 1\<rightarrow>3, 2\<rightarrow>3 built
  by \<open>addDependency\<close> every edge carries the weight 0, and \<open>computeShortestPath(0, d, p)\<close>
  produces one entry per vertex in vertex-id order, \<open>d = [0, 0, 0, 0]\<close> and
  \<open>p = [0, 0, 0, 1]\<close>; with the weights 1, 5, 1, 1 stored in the edges it produces
  \<open>d = [0, 1, 5, 2]\<close> and \<open>p = [0, 0, 0, 1]\<close>, so \<open>p[3] = 1\<close> both times.\<close>

theorem computeShortestPath_diamond:
  "map (map snd \<circ> out_edges) (dag diamond_graph) = [[0, 0], [0], [0], []]
   \<and> shortest_path_from 0 diamond_graph = Inr ([0, 0, 0, 0], [0, 0, 0, 1])
   \<and> shortest_path_from 0 weighted_diamond = Inr ([0, 1, 5, 2], [0, 0, 0, 1])"
  by (simp add: dijkstra_eval dag_diamond_graph weighted_diamond_def new_graph_def)

subsection \<open>The mutex\<close>

lemma held_after_append:
  "held_after d (xs @ ys) = (case held_after d xs of None \<Rightarrow> None | Some d' \<Rightarrow> held_after d' ys)"
  by (induction d xs rule: held_after.induct) (simp_all split: nat.splits)

lemma max_held_ge: "d \<le> max_held d es"
  by (induction d es rule: max_held.induct) simp_all

lemma max_held_append:
  "held_after d xs = Some d' \<Longrightarrow> max_held d (xs @ ys) = max (max_held d xs) (max_held d' ys)"
proof (induction d xs rule: max_held.induct)
  case (1 d)
  with max_held_ge [of d ys] show ?case by simp
next
  case (2 d es)
  then show ?case by simp
next
  case (3 d es)
  then show ?case by (cases d) simp_all
qed

lemma lock_pairs_Suc: "lock_pairs (Suc k) = Lock # Unlock # lock_pairs k"
  by (simp add: lock_pairs_def)

lemma lock_pairs_add: "lock_pairs (j + k) = lock_pairs j @ lock_pairs k"
  by (simp add: lock_pairs_def replicate_add)

lemma held_after_pairs: "held_after d (lock_pairs k) = Some d"
  by (induction k) (simp_all add: lock_pairs_Suc, simp add: lock_pairs_def)

lemma max_held_pairs: "max_held d (lock_pairs k) \<le> Suc d"
  by (induction k) (simp_all add: lock_pairs_Suc, simp add: lock_pairs_def)

lemma bracket_discipline:
  assumes "ev = Lock # lock_pairs k @ [Unlock]"
  shows "hd ev = Lock" "last ev = Unlock" "held_after 0 ev = Some 0" "max_held 0 ev \<le> 2"
    "k = 0 \<Longrightarrow> max_held 0 ev = 1"
proof -
  show "hd ev = Lock" "last ev = Unlock" using assms by simp_all
  show "held_after 0 ev = Some 0"
    using assms by (simp add: held_after_append held_after_pairs)
  have "max_held (Suc 0) (lock_pairs k @ [Unlock]) = max (max_held (Suc 0) (lock_pairs k)) (max_held (Suc 0) [Unlock])"
    by (rule max_held_append) (rule held_after_pairs)
  moreover have "max_held (Suc 0) (lock_pairs k) \<le> 2"
    using max_held_pairs [of "Suc 0" k] by simp
  ultimately show "max_held 0 ev \<le> 2" using assms by simp
  show "max_held 0 ev = 1" if "k = 0" using that assms by (simp add: lock_pairs_def)
qed

lemma fold_addDependency_log:
  "mtx_log (fold (addDependency u) ns g) = mtx_log g @ lock_pairs (length ns)"
  by (induction ns arbitrary: g) (simp_all add: addDependency_simps lock_pairs_Suc, simp add: lock_pairs_def)

lemma input_operands_log:
  "input_operands v ins g = Inr g' \<Longrightarrow> \<exists>k. mtx_log g' = mtx_log g @ lock_pairs k"
proof (induction ins arbitrary: g)
  case Nil
  then have "mtx_log g' = mtx_log g @ lock_pairs 0" by (simp add: lock_pairs_def)
  then show ?case by blast
next
  case (Cons Ti rest)
  obtain nodes epoch where ge: "getTensorEpochNodes (exec_state g) Ti = (nodes, epoch)"
    by fastforce
  show ?case
  proof (cases "epoch < 0")
    case True
    with Cons.prems ge obtain ns where ns: "nodes = Some ns"
      by (cases nodes) simp_all
    let ?g0 = "fold (addDependency v) ns g"
    let ?g1 = "?g0\<lparr>exec_state := registerTensorRead Ti v (exec_state ?g0)\<rparr>"
    from Cons.prems ge True ns have "input_operands v rest ?g1 = Inr g'" by (simp add: Let_def)
    from Cons.IH [OF this] obtain k where "mtx_log g' = mtx_log ?g1 @ lock_pairs k" by blast
    then have "mtx_log g' = mtx_log g @ lock_pairs (length ns + k)"
      by (simp add: fold_addDependency_log lock_pairs_add)
    then show ?thesis by blast
  next
    case False
    let ?g1 = "g\<lparr>exec_state := registerTensorRead Ti v (exec_state g)\<rparr>"
    from Cons.prems ge False have "input_operands v rest ?g1 = Inr g'" by simp
    from Cons.IH [OF this] show ?thesis by simp
  qed
qed

lemma getNeighborList_log:
  "getNeighborList v g = Inr (l, g') \<Longrightarrow> mtx_log g' = mtx_log g @ [Lock, Unlock]"
  by (auto simp: getNeighborList_def lock_def unlock_def Let_def split: if_splits)

lemma printIt_loop_log:
  "printIt_loop is g = Inr (lines, g') \<Longrightarrow> mtx_log g' = mtx_log g @ lock_pairs (length is)"
proof (induction "is" arbitrary: g lines)
  case Nil
  then show ?case by (simp add: lock_pairs_def)
next
  case (Cons i rest)
  from Cons.prems obtain deps g1 where n: "getNeighborList i g = Inr (deps, g1)"
    by (cases "getNeighborList i g") auto
  with Cons.prems obtain lines' where r: "printIt_loop rest g1 = Inr (lines', g')"
    by (cases "printIt_loop rest g1") auto
  from Cons.IH [OF r] getNeighborList_log [OF n] show ?case
    by (simp add: lock_pairs_Suc)
qed

lemma addOperation_log:
  assumes "addOperation opn g = Inr (v, g')"
  shows "\<exists>k. mtx_log g' = mtx_log g @ Lock # lock_pairs k @ [Unlock]"
proof -
  from assms obtain T0 ins where ops: "operands opn = T0 # ins"
    by (cases "operands opn") (simp_all add: addOperation_def Let_def)
  let ?v = "length (dag (lock g))"
  let ?g2 = "(lock g)\<lparr>dag := dag (lock g) @ [\<lparr>out_edges = [], properties = Some \<lparr>op = opn, node_id = ?v\<rparr>\<rparr>]\<rparr>"
  obtain nodes epoch where ge: "getTensorEpochNodes (exec_state ?g2) T0 = (nodes, epoch)"
    by fastforce
  let ?g3 = "case nodes of None \<Rightarrow> ?g2 | Some ns \<Rightarrow> fold (addDependency ?v) ns ?g2"
  let ?g4 = "?g3\<lparr>exec_state := registerTensorWrite T0 ?v (exec_state ?g3)\<rparr>"
  have l3: "\<exists>j. mtx_log ?g3 = mtx_log g @ Lock # lock_pairs j"
  proof (cases nodes)
    case None
    then have "mtx_log ?g3 = mtx_log g @ Lock # lock_pairs 0" by (simp add: lock_def lock_pairs_def)
    then show ?thesis by blast
  next
    case (Some ns)
    then have "mtx_log ?g3 = mtx_log g @ Lock # lock_pairs (length ns)"
      by (simp add: fold_addDependency_log) (simp add: lock_def)
    then show ?thesis by blast
  qed
  from assms ops ge obtain g5 where g5: "input_operands ?v ins ?g4 = Inr g5" and g': "g' = unlock g5"
    unfolding addOperation_def Let_def
    by (simp only: list.case prod.case) (auto split: sum.splits)
  from input_operands_log [OF g5] obtain k where "mtx_log g5 = mtx_log ?g4 @ lock_pairs k" by blast
  moreover from l3 obtain j where "mtx_log ?g4 = mtx_log g @ Lock # lock_pairs j" by auto
  ultimately have "mtx_log g' = mtx_log g @ Lock # lock_pairs (j + k) @ [Unlock]"
    using g' by (simp add: unlock_def lock_pairs_add)
  then show ?thesis by blast
qed

lemma call_events_shape:
  assumes "call_events c g = Inr ev"
  shows "\<exists>k. ev = Lock # lock_pairs k @ [Unlock] \<and> (\<not> calls_public_operation c \<longrightarrow> k = 0)"
proof (cases c)
  case (AddOperation opn)
  with assms obtain v g' where a: "addOperation opn g = Inr (v, g')" and ev: "ev = drop (length (mtx_log g)) (mtx_log g')"
    by (cases "addOperation opn g") (auto simp: call_events_def)
  from addOperation_log [OF a] ev AddOperation show ?thesis
    by (auto simp: calls_public_operation_def)
next
  case (AddDependency a b)
  with assms have "ev = Lock # lock_pairs 0 @ [Unlock]"
    by (auto simp: call_events_def addDependency_simps lock_pairs_def)
  then show ?thesis by blast
next
  case (DependencyExists a b)
  with assms have "ev = Lock # lock_pairs 0 @ [Unlock]"
    by (auto simp: call_events_def dependencyExists_def lock_def unlock_def Let_def lock_pairs_def split: if_splits)
  then show ?thesis by blast
next
  case (GetNodeProperties v)
  with assms have "ev = Lock # lock_pairs 0 @ [Unlock]"
    by (auto simp: call_events_def getNodeProperties_def lock_def unlock_def Let_def lock_pairs_def
        split: if_splits option.splits)
  then show ?thesis by blast
next
  case (GetNodeDegree v)
  with assms have "ev = Lock # lock_pairs 1 @ [Unlock]"
    by (auto simp: call_events_def getNodeDegree_def getNeighborList_def lock_def unlock_def Let_def lock_pairs_def
        split: if_splits)
  with GetNodeDegree show ?thesis by (auto simp: calls_public_operation_def)
next
  case GetNumNodes
  with assms have "ev = Lock # lock_pairs 0 @ [Unlock]"
    by (auto simp: call_events_def getNumNodes_def lock_def unlock_def Let_def lock_pairs_def)
  then show ?thesis by blast
next
  case GetNumDependencies
  with assms have "ev = Lock # lock_pairs 0 @ [Unlock]"
    by (auto simp: call_events_def getNumDependencies_def lock_def unlock_def Let_def lock_pairs_def)
  then show ?thesis by blast
next
  case (GetNeighborList v)
  with assms have "ev = Lock # lock_pairs 0 @ [Unlock]"
    by (auto simp: call_events_def getNeighborList_def lock_def unlock_def Let_def lock_pairs_def split: if_splits)
  then show ?thesis by blast
next
  case (ComputeShortestPath s)
  with assms have "ev = Lock # lock_pairs 0 @ [Unlock]"
    by (auto simp: call_events_def computeShortestPath_def lock_def unlock_def Let_def lock_pairs_def
        split: if_splits option.splits)
  then show ?thesis by blast
next
  case PrintIt
  with assms obtain lines g2 where p: "printIt_loop [0..<length (dag g)] (lock g) = Inr (lines, g2)"
    and ev: "ev = drop (length (mtx_log g)) (mtx_log (unlock g2))"
    by (cases "printIt_loop [0..<length (dag g)] (lock g)")
       (auto simp: call_events_def printIt_def Let_def lock_def)
  from printIt_loop_log [OF p] ev have "ev = Lock # lock_pairs (length (dag g)) @ [Unlock]"
    by (simp add: lock_def unlock_def)
  with PrintIt show ?thesis by (auto simp: calls_public_operation_def)
next
  case Clear
  with assms have "ev = Lock # lock_pairs 0 @ [Unlock]"
    by (auto simp: call_events_def clear_def lock_def unlock_def Let_def lock_pairs_def)
  then show ?thesis by blast
qed


text \<open>C9, as the claim states it, fails: \<open>getNodeDegree\<close> calls \<open>getNeighborList\<close> between its
  own \<open>lock()\<close> and \<open>unlock()\<close>, so the mutex is taken a second time while it is held.\<close>

theorem getNodeDegree_reacquires_lock:
  "call_events (GetNodeDegree 1) (addDependency 1 0 new_graph) = Inr [Lock, Lock, Unlock, Unlock]
   \<and> max_held 0 [Lock, Lock, Unlock, Unlock] = 2"
  by (simp add: call_events_def getNodeDegree_def getNeighborList_def new_graph_def lock_def unlock_def
      addDependency_def add_edge_def Let_def)

text \<open>C9, amended. Every operation of the graph defined in directed\_boost\_graph.cpp that
  returns takes the mutex first and releases it last, and has released it as often as it has
  taken it. The operations
  \<open>addOperation\<close>, \<open>getNodeDegree\<close> and \<open>printIt\<close> call \<open>addDependency\<close> or
  \<open>getNeighborList\<close> while they hold it, so the mutex is taken re-entrantly, never more than
  twice at a time; every other operation holds it once.\<close>

theorem lock_discipline:
  assumes "call_events c g = Inr ev"
  shows "hd ev = Lock \<and> last ev = Unlock \<and> held_after 0 ev = Some 0 \<and> max_held 0 ev \<le> 2
         \<and> (\<not> calls_public_operation c \<longrightarrow> max_held 0 ev = 1)"
proof -
  from call_events_shape [OF assms] obtain k where
    k: "ev = Lock # lock_pairs k @ [Unlock]" "\<not> calls_public_operation c \<longrightarrow> k = 0"
    by blast
  from bracket_discipline [OF k(1)] k(2) show ?thesis by blast
qed

theorem lock_discipline_witness:
  "call_events (GetNeighborList 1) (addDependency 1 0 new_graph) = Inr [Lock, Unlock]
   \<and> hd [Lock, Unlock] = Lock \<and> last [Lock, Unlock] = Unlock \<and> held_after 0 [Lock, Unlock] = Some 0
   \<and> max_held 0 [Lock, Unlock] \<le> 2
   \<and> \<not> calls_public_operation (GetNeighborList 1) \<and> max_held 0 [Lock, Unlock] = 1"
proof -
  have e: "call_events (GetNeighborList 1) (addDependency 1 0 new_graph) = Inr [Lock, Unlock]"
    by (simp add: call_events_def getNeighborList_def new_graph_def lock_def unlock_def
        addDependency_def add_edge_def Let_def)
  have n: "\<not> calls_public_operation (GetNeighborList 1)"
    by (simp add: calls_public_operation_def)
  from lock_discipline [OF e] e n show ?thesis by blast
qed

section \<open>Properties of the planner\<close>

lemma ok_result_simps [simp]:
  "ok_result E Q (Inl e) = E e" "ok_result E Q (Inr q) = Q q"
  by (simp_all add: ok_result_def)

subsection \<open>mergeTensors\<close>

lemma num_inputs_remove:
  "distinct (map fst net) \<Longrightarrow> i \<in> fst ` set net \<Longrightarrow> i \<noteq> 0
   \<Longrightarrow> Suc (num_inputs (filter (\<lambda>p. fst p \<noteq> i) net)) = num_inputs net"
proof (induction net)
  case Nil
  then show ?case by simp
next
  case (Cons p net)
  show ?case
  proof (cases "fst p = i")
    case True
    with Cons.prems have "i \<notin> fst ` set net" by auto
    then have "filter (\<lambda>p. fst p \<noteq> i) net = net" by (auto simp: filter_id_conv)
    with True Cons.prems show ?thesis by (simp add: num_inputs_def)
  next
    case False
    with Cons.prems have "Suc (num_inputs (filter (\<lambda>p. fst p \<noteq> i) net)) = num_inputs net"
      by (intro Cons.IH) auto
    with False show ?thesis by (simp add: num_inputs_def)
  qed
qed

lemma length_filter_insort_key:
  "length (filter P (insort_key f x xs)) = (if P x then Suc (length (filter P xs)) else length (filter P xs))"
  by (induction xs) simp_all

lemma map_fst_insort_mset:
  "mset (map fst (insort_key fst x xs)) = mset (fst x # map fst xs)"
  by simp

lemma mergeTensors_SomeD:
  assumes "mergeTensors mrg i j new_id net = Some net'"
  shows "i \<noteq> j" "i \<noteq> 0" "j \<noteq> 0" "new_id \<noteq> 0" "new_id \<notin> fst ` set net"
    "i \<in> fst ` set net" "j \<in> fst ` set net"
    "\<exists>t. net' = insort_key fst (new_id, t) (filter (\<lambda>p. fst p \<noteq> i \<and> fst p \<noteq> j) net)"
  using assms
  by (auto simp: mergeTensors_def split: option.splits if_splits dest!: map_of_SomeD intro: rev_image_eqI)

lemma mergeTensors_Some_iff:
  "(\<exists>net'. mergeTensors mrg i j new_id net = Some net') \<longleftrightarrow>
     i \<noteq> j \<and> i \<noteq> 0 \<and> j \<noteq> 0 \<and> new_id \<noteq> 0 \<and> new_id \<notin> fst ` set net
     \<and> i \<in> fst ` set net \<and> j \<in> fst ` set net"
proof
  assume "\<exists>net'. mergeTensors mrg i j new_id net = Some net'"
  then obtain net' where "mergeTensors mrg i j new_id net = Some net'" by blast
  from mergeTensors_SomeD(1-7) [OF this]
  show "i \<noteq> j \<and> i \<noteq> 0 \<and> j \<noteq> 0 \<and> new_id \<noteq> 0 \<and> new_id \<notin> fst ` set net
     \<and> i \<in> fst ` set net \<and> j \<in> fst ` set net"
    by blast
next
  assume a: "i \<noteq> j \<and> i \<noteq> 0 \<and> j \<noteq> 0 \<and> new_id \<noteq> 0 \<and> new_id \<notin> fst ` set net
     \<and> i \<in> fst ` set net \<and> j \<in> fst ` set net"
  then obtain ti tj where "map_of net i = Some ti" "map_of net j = Some tj"
    by (metis image_iff map_of_eq_None_iff not_None_eq)
  with a show "\<exists>net'. mergeTensors mrg i j new_id net = Some net'"
    by (simp add: mergeTensors_def)
qed

lemma mergeTensors_keys:
  assumes "mergeTensors mrg i j new_id net = Some net'"
  shows "fst ` set net' = insert new_id (fst ` set net - {i, j})"
proof -
  from mergeTensors_SomeD(8) [OF assms] obtain t where
    "net' = insort_key fst (new_id, t) (filter (\<lambda>p. fst p \<noteq> i \<and> fst p \<noteq> j) net)" by blast
  then show ?thesis by (auto simp: set_insort_key)
qed

lemma mergeTensors_distinct:
  assumes "mergeTensors mrg i j new_id net = Some net'" "distinct (map fst net)"
  shows "distinct (map fst net')"
proof -
  from mergeTensors_SomeD(8) [OF assms(1)] obtain t where
    n: "net' = insort_key fst (new_id, t) (filter (\<lambda>p. fst p \<noteq> i \<and> fst p \<noteq> j) net)" by blast
  let ?f = "filter (\<lambda>p. fst p \<noteq> i \<and> fst p \<noteq> j) net"
  have "distinct (new_id # map fst ?f)"
    using assms(2) mergeTensors_SomeD(5) [OF assms(1)] by (auto simp: distinct_map_filter)
  moreover have "mset (map fst net') = mset (new_id # map fst ?f)"
    unfolding n using map_fst_insort_mset [of "(new_id, t)" ?f] by simp
  ultimately show ?thesis by (metis mset_eq_imp_distinct_iff)
qed

lemma mergeTensors_num_inputs:
  assumes "mergeTensors mrg i j new_id net = Some net'" "distinct (map fst net)"
  shows "Suc (num_inputs net') = num_inputs net"
proof -
  note d = mergeTensors_SomeD [OF assms(1)]
  from d(8) obtain t where
    n: "net' = insort_key fst (new_id, t) (filter (\<lambda>p. fst p \<noteq> i \<and> fst p \<noteq> j) net)" by blast
  let ?n1 = "filter (\<lambda>p. fst p \<noteq> i) net"
  let ?n2 = "filter (\<lambda>p. fst p \<noteq> j) ?n1"
  have f: "filter (\<lambda>p. fst p \<noteq> i \<and> fst p \<noteq> j) net = ?n2"
    by (simp add: conj_commute)
  have 1: "Suc (num_inputs ?n1) = num_inputs net"
    using assms(2) d(6) d(2) by (rule num_inputs_remove)
  have "distinct (map fst ?n1)" using assms(2) by (simp add: distinct_map_filter)
  moreover have "j \<in> fst ` set ?n1" using d(7) d(1) by auto
  ultimately have 2: "Suc (num_inputs ?n2) = num_inputs ?n1"
    using d(3) by (rule num_inputs_remove)
  have "num_inputs net' = Suc (num_inputs ?n2)"
    unfolding n f using d(4) by (simp add: num_inputs_def length_filter_insort_key)
  with 1 2 show ?thesis by simp
qed

subsection \<open>The queue\<close>

lemma set_priq_emplace [simp]: "set (priq_emplace x q) = insert x (set q)"
  by (induction q) auto

lemma length_priq_emplace [simp]: "length (priq_emplace x q) = Suc (length q)"
  by (induction q) auto

lemma drain_to_one_eq: "drain_to_one q = (if q = [] then [] else [last q])"
  by (induction q rule: drain_to_one.induct) auto


subsection \<open>The loops\<close>

lemma loop_j_ok:
  assumes "\<And>jt q. jt \<in> set rest \<Longrightarrow> fst jt \<noteq> 0 \<Longrightarrow> Q q \<Longrightarrow> ok_result E Q (body P it jt q)"
    and "Q q"
  shows "ok_result E Q (loop_j body P it rest q)"
  using assms
proof (induction rest arbitrary: q)
  case Nil
  then show ?case by simp
next
  case (Cons jt rest)
  show ?case
  proof (cases "fst jt \<noteq> 0")
    case True
    with Cons.prems have r: "ok_result E Q (body P it jt q)" by simp
    show ?thesis
    proof (cases "body P it jt q")
      case (Inl e)
      with r True show ?thesis by simp
    next
      case (Inr q1)
      with r have "Q q1" by simp
      then have "ok_result E Q (loop_j body P it rest q1)"
        using Cons.prems(1) by (intro Cons.IH) simp_all
      with Inr True show ?thesis by simp
    qed
  next
    case False
    have "ok_result E Q (loop_j body P it rest q)"
      using Cons.prems by (intro Cons.IH) simp_all
    with False show ?thesis by simp
  qed
qed

lemma loop_i_ok:
  assumes "distinct (map fst l)"
    and "\<And>it jt q. it \<in> set l \<Longrightarrow> jt \<in> set l \<Longrightarrow> fst it \<noteq> 0 \<Longrightarrow> fst jt \<noteq> 0 \<Longrightarrow> fst it \<noteq> fst jt
           \<Longrightarrow> Q q \<Longrightarrow> ok_result E Q (body P it jt q)"
    and "Q q"
  shows "ok_result E Q (loop_i body P l q)"
  using assms
proof (induction l arbitrary: q)
  case Nil
  then show ?case by simp
next
  case (Cons it rest)
  have tail: "ok_result E Q (loop_i body P rest q1)" if "Q q1" for q1
    using Cons.prems(1) that by (intro Cons.IH Cons.prems(2)) simp_all
  show ?case
  proof (cases "fst it \<noteq> 0")
    case True
    have r: "ok_result E Q (loop_j body P it rest q)"
    proof (rule loop_j_ok)
      fix jt q1
      assume a: "jt \<in> set rest" "fst jt \<noteq> 0" "Q q1"
      with Cons.prems(1) have "fst it \<noteq> fst jt" by (auto simp: image_iff)
      with a True show "ok_result E Q (body P it jt q1)"
        by (intro Cons.prems(2)) simp_all
    qed (rule Cons.prems(3))
    show ?thesis
    proof (cases "loop_j body P it rest q")
      case (Inl e)
      with r True show ?thesis by simp
    next
      case (Inr q1)
      with r have "Q q1" by simp
      from tail [OF this] Inr True show ?thesis by simp
    qed
  next
    case False
    with tail [OF Cons.prems(3)] show ?thesis by simp
  qed
qed

lemma loop_paths_ok:
  assumes "\<And>P. P \<in> set B \<Longrightarrow> distinct (map fst (fst P))"
    and "\<And>P it jt q. P \<in> set B \<Longrightarrow> it \<in> set (fst P) \<Longrightarrow> jt \<in> set (fst P) \<Longrightarrow> fst it \<noteq> 0
           \<Longrightarrow> fst jt \<noteq> 0 \<Longrightarrow> fst it \<noteq> fst jt \<Longrightarrow> Q q \<Longrightarrow> ok_result E Q (body P it jt q)"
    and "Q q"
  shows "ok_result E Q (loop_paths body B q)"
  using assms
proof (induction B arbitrary: q)
  case Nil
  then show ?case by simp
next
  case (Cons P B)
  have r: "ok_result E Q (loop_i body P (fst P) q)"
    using Cons.prems(1) [of P] Cons.prems(3)
    by (intro loop_i_ok Cons.prems(2)) simp_all
  show ?case
  proof (cases "loop_i body P (fst P) q")
    case (Inl e)
    with r show ?thesis by simp
  next
    case (Inr q1)
    with r have "Q q1" by simp
    then have "ok_result E Q (loop_paths body B q1)"
      using Cons.prems(1)
      by (intro Cons.IH Cons.prems(2)) simp_all
    with Inr show ?thesis by simp
  qed
qed

lemma loop_j_nonempty:
  assumes "\<And>P it jt q q'. body P it jt q = Inr q' \<Longrightarrow> q' \<noteq> []"
    and "loop_j body P it rest q = Inr q'"
    and "q \<noteq> [] \<or> (\<exists>jt\<in>set rest. fst jt \<noteq> 0)"
  shows "q' \<noteq> []"
  using assms(2,3)
proof (induction rest arbitrary: q)
  case Nil
  then show ?case by simp
next
  case (Cons jt rest)
  show ?case
  proof (cases "fst jt \<noteq> 0")
    case True
    with Cons.prems(1) obtain q1 where b: "body P it jt q = Inr q1" and l: "loop_j body P it rest q1 = Inr q'"
      by (cases "body P it jt q") auto
    from assms(1) [OF b] have "q1 \<noteq> []" .
    with Cons.IH [OF l] show ?thesis by simp
  next
    case False
    with Cons.prems have "loop_j body P it rest q = Inr q'" "q \<noteq> [] \<or> (\<exists>jt\<in>set rest. fst jt \<noteq> 0)"
      by auto
    then show ?thesis by (rule Cons.IH)
  qed
qed

lemma loop_i_nonempty:
  assumes "\<And>P it jt q q'. body P it jt q = Inr q' \<Longrightarrow> q' \<noteq> []"
    and "loop_i body P l q = Inr q'"
    and "q \<noteq> [] \<or> 2 \<le> num_inputs l"
  shows "q' \<noteq> []"
  using assms(2,3)
proof (induction l arbitrary: q)
  case Nil
  then show ?case by (simp add: num_inputs_def)
next
  case (Cons it rest)
  show ?case
  proof (cases "fst it \<noteq> 0")
    case True
    with Cons.prems(1) obtain q1 where b: "loop_j body P it rest q = Inr q1" and l: "loop_i body P rest q1 = Inr q'"
      by (cases "loop_j body P it rest q") auto
    have "q \<noteq> [] \<or> (\<exists>jt\<in>set rest. fst jt \<noteq> 0)"
    proof (cases "q = []")
      case True
      with Cons.prems(2) \<open>fst it \<noteq> 0\<close> have "1 \<le> length (filter (\<lambda>p. fst p \<noteq> 0) rest)"
        by (simp add: num_inputs_def)
      then have "filter (\<lambda>p. fst p \<noteq> 0) rest \<noteq> []" by auto
      then show ?thesis by (auto simp: filter_empty_conv)
    qed simp
    with assms(1) b have "q1 \<noteq> []" by (rule loop_j_nonempty)
    with Cons.IH [OF l] show ?thesis by simp
  next
    case False
    with Cons.prems have "loop_i body P rest q = Inr q'" "q \<noteq> [] \<or> 2 \<le> num_inputs rest"
      by (auto simp: num_inputs_def)
    then show ?thesis by (rule Cons.IH)
  qed
qed

lemma loop_paths_nonempty:
  assumes "\<And>P it jt q q'. body P it jt q = Inr q' \<Longrightarrow> q' \<noteq> []"
    and "loop_paths body B q = Inr q'"
    and "q \<noteq> [] \<or> (B \<noteq> [] \<and> (\<forall>P\<in>set B. 2 \<le> num_inputs (fst P)))"
  shows "q' \<noteq> []"
  using assms(2,3)
proof (induction B arbitrary: q)
  case Nil
  then show ?case by simp
next
  case (Cons P B)
  from Cons.prems(1) obtain q1 where b: "loop_i body P (fst P) q = Inr q1" and l: "loop_paths body B q1 = Inr q'"
    by (cases "loop_i body P (fst P) q") auto
  from Cons.prems(2) have "q \<noteq> [] \<or> 2 \<le> num_inputs (fst P)" by auto
  with assms(1) b have "q1 \<noteq> []" by (rule loop_i_nonempty)
  with Cons.IH [OF l] show ?case by simp
qed

subsection \<open>One candidate\<close>

lemma new_candidate_cases:
  obtains (failed) "mergeTensors mrg (fst it) (fst jt) iid (fst P) = None"
      "new_candidate cost mrg W iid lp P it jt q = Inl AssertionFailed"
  | (pushed) net' q' where "mergeTensors mrg (fst it) (fst jt) iid (fst P) = Some net'"
      "new_candidate cost mrg W iid lp P it jt q = Inr q'"
      "set q' \<subseteq> insert (net', fst (snd P) @ [\<lparr>result_id = (if lp then 0 else iid), left_id = fst it, right_id = fst jt\<rparr>],
                          cost (snd it) (snd jt) + snd (snd P)) (set q)"
      "length q' = (if W < Suc (length q) then length q else Suc (length q))"
proof (cases "mergeTensors mrg (fst it) (fst jt) iid (fst P)")
  case None
  then have "new_candidate cost mrg W iid lp P it jt q = Inl AssertionFailed"
    by (simp add: new_candidate_def)
  with None show ?thesis by (rule failed)
next
  case (Some net')
  let ?x = "(net', fst (snd P) @ [\<lparr>result_id = (if lp then 0 else iid), left_id = fst it, right_id = fst jt\<rparr>],
             cost (snd it) (snd jt) + snd (snd P))"
  let ?q1 = "priq_emplace ?x q"
  let ?q' = "if W < length ?q1 then priq_pop ?q1 else ?q1"
  from Some have r: "new_candidate cost mrg W iid lp P it jt q = Inr ?q'"
    by (simp add: new_candidate_def Let_def)
  have "set (priq_pop ?q1) \<subseteq> set ?q1"
    unfolding priq_pop_def by (cases ?q1) auto
  then have "set ?q' \<subseteq> insert ?x (set q)" by auto
  moreover have "length ?q' = (if W < Suc (length q) then length q else Suc (length q))"
    by (simp add: priq_pop_def)
  ultimately show ?thesis using Some r by (intro pushed)
qed


lemma new_candidate_nonempty:
  assumes "1 \<le> W" "new_candidate cost mrg W iid lp P it jt q = Inr q'"
  shows "q' \<noteq> []"
proof (cases rule: new_candidate_cases [of mrg it jt iid P cost W lp q])
  case failed
  with assms(2) show ?thesis by simp
next
  case (pushed net' q1)
  with assms have "1 \<le> length q'" by (auto split: if_splits)
  then show ?thesis by auto
qed

subsection \<open>The passes\<close>

lemma passes_empty_beam:
  "pass < N \<Longrightarrow> passes cost mrg W gen N pass gs [] [] cs fl = Inl EmptyQueue"
proof (induction "N - pass" arbitrary: pass gs cs fl)
  case 0
  then show ?case by simp
next
  case (Suc k)
  obtain iid gs' where g: "gen gs = (iid, gs')" by fastforce
  show ?case
  proof (cases "pass = N - 1")
    case True
    with Suc.prems g show ?thesis by (simp add: passes.simps)
  next
    case False
    with Suc.prems have lt: "Suc pass < N" by simp
    from Suc.hyps(2) have "k = N - Suc pass" by simp
    from Suc.hyps(1) [OF this lt] have "passes cost mrg W gen N (Suc pass) gs' [] [] cs fl = Inl EmptyQueue" .
    with Suc.prems g False show ?thesis by (simp add: passes.simps)
  qed
qed

lemma getNumTensors_num_inputs: "getNumTensors net = of_nat (num_inputs net)"
  by (simp add: getNumTensors_def num_inputs_def)

lemma numContractions_less:
  assumes "1 \<le> n"
  shows "unat ((of_nat n :: 32 word) - 1) < n"
proof (cases "(of_nat n :: 32 word) = 0")
  case True
  then have "2 ^ 32 dvd n" by (simp add: word_of_nat_eq_0_iff)
  with assms have "2 ^ 32 \<le> n" by (auto dest: dvd_imp_le)
  moreover from True have "unat ((of_nat n :: 32 word) - 1) = 2 ^ 32 - 1"
    by (simp add: unsigned_minus_1_eq_mask mask_eq_exp_minus_1)
  ultimately show ?thesis by simp
next
  case False
  then have "unat ((of_nat n :: 32 word) - 1) = unat (of_nat n :: 32 word) - 1"
    by (rule unat_minus_one)
  moreover have "unat (of_nat n :: 32 word) \<le> n" by (simp add: unat_of_nat)
  moreover from False have "unat (of_nat n :: 32 word) \<noteq> 0" by (simp add: unat_eq_0)
  ultimately show ?thesis by simp
qed

lemma numContractions_exact:
  assumes "1 \<le> n" "n < 2 ^ 32"
  shows "unat ((of_nat n :: 32 word) - 1) = n - 1"
proof -
  from assms have u: "unat (of_nat n :: 32 word) = n" by (simp add: unat_of_nat)
  with assms have "(of_nat n :: 32 word) \<noteq> 0" by (metis not_one_le_zero unat_0)
  then have "unat ((of_nat n :: 32 word) - 1) = unat (of_nat n :: 32 word) - 1"
    by (rule unat_minus_one)
  with u show ?thesis by simp
qed

lemma passes_done:
  "\<not> p < N \<Longrightarrow> passes cost mrg W gen N p gs B q cs fl = Inr (cs, fl, gs)"
  by (subst passes.simps) simp

lemma passes_failed:
  "p < N \<Longrightarrow> gen gs = (iid, gs')
   \<Longrightarrow> loop_paths (new_candidate cost mrg W iid (p = N - 1)) B q = Inl e
   \<Longrightarrow> passes cost mrg W gen N p gs B q cs fl = Inl e"
  by (subst passes.simps) simp

lemma passes_last:
  "p < N \<Longrightarrow> gen gs = (iid, gs') \<Longrightarrow> p = N - 1
   \<Longrightarrow> loop_paths (new_candidate cost mrg W iid True) B q = Inr q1
   \<Longrightarrow> passes cost mrg W gen N p gs B q cs fl
       = (if q1 = [] then Inl EmptyQueue else Inr (fst (snd (last q1)), snd (snd (last q1)), gs'))"
  by (subst passes.simps) (simp add: drain_to_one_eq passes_done)

lemma passes_next:
  "p < N \<Longrightarrow> gen gs = (iid, gs') \<Longrightarrow> p \<noteq> N - 1
   \<Longrightarrow> loop_paths (new_candidate cost mrg W iid False) B q = Inr q1
   \<Longrightarrow> passes cost mrg W gen N p gs B q cs fl = passes cost mrg W gen N (Suc p) gs' q1 [] cs fl"
  by (subst passes.simps) simp

lemma pass_shape:
  assumes B: "\<forall>x\<in>set B. path_shape n0 p x"
  shows "ok_result (\<lambda>e. e = AssertionFailed) (\<lambda>q. \<forall>x\<in>set q. path_shape n0 (Suc p) x)
           (loop_paths (new_candidate cost mrg W iid lp) B [])"
proof (rule loop_paths_ok)
  fix P assume "P \<in> set B"
  with B show "distinct (map fst (fst P))" by (simp add: path_shape_def)
next
  fix P it jt and q :: "'a ContrPath list"
  assume P: "P \<in> set B" and q: "\<forall>x\<in>set q. path_shape n0 (Suc p) x"
  from P B have s: "path_shape n0 p P" by simp
  show "ok_result (\<lambda>e. e = AssertionFailed) (\<lambda>q. \<forall>x\<in>set q. path_shape n0 (Suc p) x)
          (new_candidate cost mrg W iid lp P it jt q)"
  proof (cases rule: new_candidate_cases [of mrg it jt iid P cost W lp q])
    case failed
    then show ?thesis by simp
  next
    case (pushed net' q')
    from s pushed(1) have "distinct (map fst net')" "Suc (num_inputs net') = num_inputs (fst P)"
      by (auto simp: path_shape_def intro: mergeTensors_distinct mergeTensors_num_inputs)
    with s have "path_shape n0 (Suc p) (net', sq, c)" for sq c
      by (simp add: path_shape_def)
    with pushed(3) q have "\<forall>x\<in>set q'. path_shape n0 (Suc p) x" by blast
    with pushed(2) show ?thesis by simp
  qed
qed simp

lemma passes_no_empty_queue:
  assumes "1 \<le> W" "N < n0"
  shows "B \<noteq> [] \<Longrightarrow> \<forall>x\<in>set B. path_shape n0 p x
         \<Longrightarrow> passes cost mrg W gen N p gs B [] cs fl \<noteq> Inl EmptyQueue"
proof (induction "N - p" arbitrary: p gs B cs fl)
  case 0
  then show ?case by (simp add: passes_done)
next
  case (Suc k)
  from Suc.hyps(2) have pN: "p < N" by simp
  obtain iid gs' where g: "gen gs = (iid, gs')" by fastforce
  let ?r = "loop_paths (new_candidate cost mrg W iid (p = N - 1)) B []"
  have ok: "ok_result (\<lambda>e. e = AssertionFailed) (\<lambda>q. \<forall>x\<in>set q. path_shape n0 (Suc p) x) ?r"
    using Suc.prems(2) by (rule pass_shape)
  show ?case
  proof (cases ?r)
    case (Inl e)
    with ok have "e = AssertionFailed" by simp
    with Inl have "passes cost mrg W gen N p gs B [] cs fl = Inl AssertionFailed"
      by (intro passes_failed [where gen = gen and gs = gs, OF pN g]) simp
    then show ?thesis by simp
  next
    case (Inr q1)
    with ok have q1: "\<forall>x\<in>set q1. path_shape n0 (Suc p) x" by simp
    from Suc.prems(2) pN assms(2) have "\<forall>P\<in>set B. 2 \<le> num_inputs (fst P)"
      by (auto simp: path_shape_def)
    with Suc.prems(1) have ne: "q1 \<noteq> []"
      by (intro loop_paths_nonempty [OF new_candidate_nonempty [OF assms(1)] Inr]) simp_all
    show ?thesis
    proof (cases "p = N - 1")
      case True
      with Inr have "loop_paths (new_candidate cost mrg W iid True) B [] = Inr q1" by simp
      from passes_last [where gen = gen and gs = gs, OF pN g True this] ne show ?thesis by simp
    next
      case False
      from Suc.hyps(2) have "k = N - Suc p" by simp
      from Suc.hyps(1) [OF this ne q1]
      have "passes cost mrg W gen N (Suc p) gs' q1 [] cs fl \<noteq> Inl EmptyQueue" .
      moreover from False Inr have "loop_paths (new_candidate cost mrg W iid False) B [] = Inr q1" by simp
      from passes_next [where gen = gen and gs = gs, OF pN g False this]
      have "passes cost mrg W gen N p gs B [] cs fl = passes cost mrg W gen N (Suc p) gs' q1 [] cs fl" .
      ultimately show ?thesis by simp
    qed
  qed
qed


lemma replay_snoc:
  "replay mrg net0 sq ids = Some net \<Longrightarrow> length sq < length ids
   \<Longrightarrow> replay mrg net0 (sq @ [t]) ids
       = (if is_factor net (left_id t) \<and> is_factor net (right_id t)
          then mergeTensors mrg (left_id t) (right_id t) (ids ! length sq) net else None)"
proof (induction mrg net0 sq ids rule: replay.induct)
  case (1 mrg net ids)
  then show ?case by (cases ids) (auto split: option.splits)
next
  case (2 mrg net t ts)
  then show ?case by simp
next
  case (3 mrg net t ts iid ids)
  then show ?case by (auto split: option.splits if_splits)
qed

lemma generated_step:
  assumes "generated gen gs (N - p) = drop p ids" "p < N" "length ids = N" "gen gs = (iid, gs')"
  shows "iid = ids ! p" "generated gen gs' (N - Suc p) = drop (Suc p) ids"
proof -
  from assms(2) obtain k where k: "N - p = Suc k" "N - Suc p = k"
    by (metis Suc_diff_Suc)
  from assms(2,3) have "drop p ids = ids ! p # drop (Suc p) ids"
    by (simp add: Cons_nth_drop_Suc)
  with assms(1,4) k show "iid = ids ! p" "generated gen gs' (N - Suc p) = drop (Suc p) ids"
    by simp_all
qed

lemma candidate_trace:
  assumes ids: "distinct ids" "0 \<notin> set ids" "set ids \<inter> fst ` set net0 = {}" "p < length ids"
    and P: "path_trace mrg net0 ids p P"
    and it: "it \<in> set (fst P)" "jt \<in> set (fst P)" "fst it \<noteq> 0" "fst jt \<noteq> 0" "fst it \<noteq> fst jt"
  obtains net' q' where
    "new_candidate cost mrg W (ids ! p) lp P it jt q = Inr q'"
    "set q' \<subseteq> insert (net', fst (snd P) @ [\<lparr>result_id = (if lp then 0 else ids ! p), left_id = fst it, right_id = fst jt\<rparr>],
                        cost (snd it) (snd jt) + snd (snd P)) (set q)"
    "path_shape (num_inputs net0) (Suc p) (net', sq, c)"
    "replay mrg net0 (fst (snd P) @ [\<lparr>result_id = r, left_id = fst it, right_id = fst jt\<rparr>]) ids = Some net'"
    "fst ` set net' \<subseteq> fst ` set net0 \<union> set (take (Suc p) ids)"
proof -
  let ?iid = "ids ! p"
  from P have shape: "distinct (map fst (fst P))" "num_inputs (fst P) + p = num_inputs net0"
    and rep: "replay mrg net0 (fst (snd P)) ids = Some (fst P)"
    and res: "map result_id (fst (snd P)) = take p ids"
    and keys: "fst ` set (fst P) \<subseteq> fst ` set net0 \<union> set (take p ids)"
    by (simp_all add: path_trace_def path_shape_def)
  from ids(4) have iid_in: "?iid \<in> set ids" by simp
  with ids(2) have iid0: "?iid \<noteq> 0" by metis
  from iid_in ids(3) have "?iid \<notin> fst ` set net0" by blast
  moreover have "?iid \<notin> set (take p ids)"
  proof
    assume "?iid \<in> set (take p ids)"
    then obtain k where "k < p" "ids ! k = ?iid"
      by (auto simp: in_set_conv_nth)
    with ids(1,4) show False by (auto simp: nth_eq_iff_index_eq)
  qed
  ultimately have fresh: "?iid \<notin> fst ` set (fst P)" using keys by blast
  from it fresh iid0 have "\<exists>net'. mergeTensors mrg (fst it) (fst jt) ?iid (fst P) = Some net'"
    unfolding mergeTensors_Some_iff by auto
  then obtain net' where m: "mergeTensors mrg (fst it) (fst jt) ?iid (fst P) = Some net'" by blast
  from res have len: "length (fst (snd P)) = p" using ids(4)
    by (metis length_map length_take min.absorb2 nat_less_le)
  show ?thesis
  proof (cases rule: new_candidate_cases [of mrg it jt ?iid P cost W lp q])
    case failed
    with m show ?thesis by simp
  next
    case (pushed net'' q')
    with m have [simp]: "net'' = net'" by simp
    have 1: "path_shape (num_inputs net0) (Suc p) (net', sq, c)"
      using shape mergeTensors_distinct [OF m] mergeTensors_num_inputs [OF m]
      by (simp add: path_shape_def)
    have f: "is_factor (fst P) (fst it)" "is_factor (fst P) (fst jt)"
      using it by (auto simp: is_factor_def)
    have 2: "replay mrg net0 (fst (snd P) @ [\<lparr>result_id = r, left_id = fst it, right_id = fst jt\<rparr>]) ids = Some net'"
      using replay_snoc [OF rep, of "\<lparr>result_id = r, left_id = fst it, right_id = fst jt\<rparr>"] len ids(4) f m
      by simp
    have "set (take (Suc p) ids) = insert ?iid (set (take p ids))"
      using ids(4) by (simp add: take_Suc_conv_app_nth)
    then have 3: "fst ` set net' \<subseteq> fst ` set net0 \<union> set (take (Suc p) ids)"
      using mergeTensors_keys [OF m] keys by auto
    from pushed(2,3) 1 2 3 show ?thesis by (intro that [of q' net']) simp_all
  qed
qed

lemma pass_trace:
  assumes ids: "distinct ids" "0 \<notin> set ids" "set ids \<inter> fst ` set net0 = {}" "p < length ids"
    and B: "\<forall>x\<in>set B. path_trace mrg net0 ids p x"
    and lp: "\<not> lp"
  shows "ok_result (\<lambda>e. False) (\<lambda>q. \<forall>x\<in>set q. path_trace mrg net0 ids (Suc p) x)
           (loop_paths (new_candidate cost mrg W (ids ! p) lp) B [])"
proof (rule loop_paths_ok)
  fix P assume "P \<in> set B"
  with B show "distinct (map fst (fst P))" by (simp add: path_trace_def path_shape_def)
next
  fix P it jt and q :: "'a ContrPath list"
  assume P: "P \<in> set B" and it: "it \<in> set (fst P)" "jt \<in> set (fst P)" "fst it \<noteq> 0" "fst jt \<noteq> 0" "fst it \<noteq> fst jt"
    and q: "\<forall>x\<in>set q. path_trace mrg net0 ids (Suc p) x"
  from P B have t: "path_trace mrg net0 ids p P" by simp
  let ?sq = "fst (snd P) @ [\<lparr>result_id = (if lp then 0 else ids ! p), left_id = fst it, right_id = fst jt\<rparr>]"
  let ?c = "cost (snd it) (snd jt) + snd (snd P)"
  show "ok_result (\<lambda>e. False) (\<lambda>q. \<forall>x\<in>set q. path_trace mrg net0 ids (Suc p) x)
          (new_candidate cost mrg W (ids ! p) lp P it jt q)"
  proof (rule candidate_trace [where cost = cost and W = W and lp = lp and q = q and sq = "?sq" and c = "?c"
      and r = "ids ! p", OF ids t it])
    fix net' q'
    assume c1: "new_candidate cost mrg W (ids ! p) lp P it jt q = Inr q'"
      and c2: "set q' \<subseteq> insert (net', ?sq, ?c) (set q)"
      and c3: "path_shape (num_inputs net0) (Suc p) (net', ?sq, ?c)"
      and c4: "replay mrg net0 (fst (snd P) @ [\<lparr>result_id = ids ! p, left_id = fst it, right_id = fst jt\<rparr>]) ids = Some net'"
      and c5: "fst ` set net' \<subseteq> fst ` set net0 \<union> set (take (Suc p) ids)"
    from t have "map result_id (fst (snd P)) = take p ids" by (simp add: path_trace_def)
    with ids(4) lp have "map result_id ?sq = take (Suc p) ids"
      by (simp add: take_Suc_conv_app_nth)
    with c3 c4 c5 lp have n: "path_trace mrg net0 ids (Suc p) (net', ?sq, ?c)"
      by (simp add: path_trace_def)
    have "path_trace mrg net0 ids (Suc p) x" if "x \<in> set q'" for x
    proof (cases "x = (net', ?sq, ?c)")
      case True
      with n show ?thesis by simp
    next
      case False
      with that c2 have "x \<in> set q" by auto
      with q show ?thesis by simp
    qed
    with c1 show ?thesis by simp
  qed
qed simp

lemma last_pass_trace:
  assumes ids: "distinct ids" "0 \<notin> set ids" "set ids \<inter> fst ` set net0 = {}" "Suc p = length ids"
    and B: "\<forall>x\<in>set B. path_trace mrg net0 ids p x"
  shows "ok_result (\<lambda>e. False) (\<lambda>q. \<forall>x\<in>set q. sequence_complete mrg net0 ids (fst (snd x)))
           (loop_paths (new_candidate cost mrg W (ids ! p) True) B [])"
proof (rule loop_paths_ok)
  fix P assume "P \<in> set B"
  with B show "distinct (map fst (fst P))" by (simp add: path_trace_def path_shape_def)
next
  fix P it jt and q :: "'a ContrPath list"
  assume P: "P \<in> set B" and it: "it \<in> set (fst P)" "jt \<in> set (fst P)" "fst it \<noteq> 0" "fst jt \<noteq> 0" "fst it \<noteq> fst jt"
    and q: "\<forall>x\<in>set q. sequence_complete mrg net0 ids (fst (snd x))"
  from P B have t: "path_trace mrg net0 ids p P" by simp
  from ids(4) have pl: "p < length ids" by simp
  let ?sq = "fst (snd P) @ [\<lparr>result_id = (if True then 0 else ids ! p), left_id = fst it, right_id = fst jt\<rparr>]"
  let ?c = "cost (snd it) (snd jt) + snd (snd P)"
  show "ok_result (\<lambda>e. False) (\<lambda>q. \<forall>x\<in>set q. sequence_complete mrg net0 ids (fst (snd x)))
          (new_candidate cost mrg W (ids ! p) True P it jt q)"
  proof (rule candidate_trace [where cost = cost and W = W and lp = True and q = q and sq = "?sq" and c = "?c"
      and r = 0, OF ids(1-3) pl t it])
    fix net' q'
    assume c1: "new_candidate cost mrg W (ids ! p) True P it jt q = Inr q'"
      and c2: "set q' \<subseteq> insert (net', ?sq, ?c) (set q)"
      and c4: "replay mrg net0 (fst (snd P) @ [\<lparr>result_id = 0, left_id = fst it, right_id = fst jt\<rparr>]) ids = Some net'"
    from t have r: "map result_id (fst (snd P)) = take p ids" by (simp add: path_trace_def)
    then have "length (fst (snd P)) = p" using pl
      by (metis length_map length_take min.absorb2 nat_less_le)
    moreover from ids(4) have "p = length ids - 1" by simp
    then have "take p ids = butlast ids" by (simp only: butlast_conv_take)
    ultimately have n: "sequence_complete mrg net0 ids ?sq"
      using c4 r ids(4) by (simp add: sequence_complete_def)
    have "sequence_complete mrg net0 ids (fst (snd x))" if "x \<in> set q'" for x
    proof (cases "x = (net', ?sq, ?c)")
      case True
      with n show ?thesis by simp
    next
      case False
      with that c2 have "x \<in> set q" by auto
      with q show ?thesis by simp
    qed
    with c1 show ?thesis by simp
  qed
qed simp

lemma passes_trace:
  assumes W: "1 \<le> W" and N: "N < num_inputs net0" "length ids = N"
    and ids: "distinct ids" "0 \<notin> set ids" "set ids \<inter> fst ` set net0 = {}"
  shows "p < N \<Longrightarrow> B \<noteq> [] \<Longrightarrow> \<forall>x\<in>set B. path_trace mrg net0 ids p x
         \<Longrightarrow> generated gen gs (N - p) = drop p ids
         \<Longrightarrow> \<exists>sq fl gs'. passes cost mrg W gen N p gs B [] cs fl0 = Inr (sq, fl, gs')
               \<and> sequence_complete mrg net0 ids sq"
proof (induction "N - p" arbitrary: p gs B cs fl0)
  case 0
  then show ?case by simp
next
  case (Suc k)
  note pN = \<open>p < N\<close>
  obtain iid gs' where g: "gen gs = (iid, gs')" by fastforce
  from generated_step [OF Suc.prems(4) pN N(2) g]
  have iid: "iid = ids ! p" and gen': "generated gen gs' (N - Suc p) = drop (Suc p) ids" .
  from Suc.prems(3) pN N(1) have two: "\<forall>P\<in>set B. 2 \<le> num_inputs (fst P)"
    by (auto simp: path_trace_def path_shape_def)
  show ?case
  proof (cases "p = N - 1")
    case True
    with pN N(2) have sl: "Suc p = length ids" by simp
    let ?r = "loop_paths (new_candidate cost mrg W (ids ! p) True) B []"
    from last_pass_trace [OF ids sl Suc.prems(3), of cost W]
    obtain q1 where r: "?r = Inr q1" and q1: "\<forall>x\<in>set q1. sequence_complete mrg net0 ids (fst (snd x))"
      by (cases ?r) simp_all
    from Suc.prems(2) two have ne: "q1 \<noteq> []"
      by (intro loop_paths_nonempty [OF new_candidate_nonempty [OF W] r]) simp_all
    from r iid have "loop_paths (new_candidate cost mrg W iid True) B [] = Inr q1" by simp
    from passes_last [where gen = gen and gs = gs, OF pN g True this] ne
    have "passes cost mrg W gen N p gs B [] cs fl0 = Inr (fst (snd (last q1)), snd (snd (last q1)), gs')"
      by simp
    moreover from ne q1 have "sequence_complete mrg net0 ids (fst (snd (last q1)))" by simp
    ultimately show ?thesis by blast
  next
    case False
    with pN N(2) have pl: "p < length ids" and lt: "Suc p < N" by simp_all
    let ?r = "loop_paths (new_candidate cost mrg W (ids ! p) False) B []"
    from pass_trace [OF ids pl Suc.prems(3), of False cost W]
    obtain q1 where r: "?r = Inr q1" and q1: "\<forall>x\<in>set q1. path_trace mrg net0 ids (Suc p) x"
      by (cases ?r) simp_all
    from Suc.prems(2) two have ne: "q1 \<noteq> []"
      by (intro loop_paths_nonempty [OF new_candidate_nonempty [OF W] r]) simp_all
    from r iid have "loop_paths (new_candidate cost mrg W iid False) B [] = Inr q1" by simp
    from passes_next [where gen = gen and gs = gs, OF pN g False this]
    have e: "passes cost mrg W gen N p gs B [] cs fl0 = passes cost mrg W gen N (Suc p) gs' q1 [] cs fl0" .
    from Suc.hyps(2) have "k = N - Suc p" by simp
    from Suc.hyps(1) [OF this lt ne q1 gen'] e show ?thesis by simp
  qed
qed

lemma length_generated: "length (generated gen gs k) = k"
  by (induction k arbitrary: gs) simp_all

text \<open>C3. For a network with \<open>n \<ge> 2\<close> input factors (one tensor per id, \<open>n\<close> within
  \<open>unsigned int\<close>), a beam width of at least 1 and a generator whose first \<open>n - 1\<close> ids are
  distinct, non-zero and not ids of the network, \<open>determineContractionSequence\<close> returns a
  sequence of exactly \<open>n - 1\<close> triples; the last triple has result id 0, the result ids
  of the others are the generated ids in order, and at every step the left and the right id
  are input factors of the network as it is at that step.\<close>

theorem planner_sequence:
  assumes "1 \<le> num_walkers" "distinct (map fst network)"
    and "2 \<le> num_inputs network" "num_inputs network < 2 ^ 32"
    and "ids = generated gen gs (num_inputs network - 1)"
    and "distinct ids" "0 \<notin> set ids" "set ids \<inter> fst ` set network = {}"
  shows "\<exists>contr_seq flops gs'.
           determineContractionSequence cost mrg num_walkers network gen gs = Inr (contr_seq, flops, gs')
           \<and> length contr_seq = num_inputs network - 1
           \<and> result_id (last contr_seq) = 0
           \<and> map result_id (butlast contr_seq) = butlast ids
           \<and> replay mrg network contr_seq ids \<noteq> None"
proof -
  let ?n = "num_inputs network"
  let ?N = "unat (getNumTensors network - 1)"
  from assms(3,4) have N: "?N = ?n - 1"
    unfolding getNumTensors_num_inputs by (intro numContractions_exact) simp_all
  have nz: "getNumTensors network - 1 \<noteq> 0"
  proof
    assume "getNumTensors network - 1 = 0"
    then have "?N = 0" by simp
    with N assms(3) show False by simp
  qed
  have len: "length ids = ?N" by (simp add: assms(5) length_generated N)
  have lt: "?N < ?n" "0 < ?N" using N assms(3) by simp_all
  have start: "\<forall>x\<in>set [(network, [], 0 :: real)]. path_trace mrg network ids 0 x"
    using assms(2) by (simp add: path_trace_def path_shape_def)
  have gen: "generated gen gs (?N - 0) = drop 0 ids" by (simp add: assms(5) N)
  from passes_trace [where cost = cost and cs = "[]" and ?fl0.0 = 0,
      OF assms(1) lt(1) len assms(6,7,8) lt(2) _ start gen]
  obtain sq fl gs' where r: "passes cost mrg num_walkers gen ?N 0 gs [(network, [], 0)] [] [] 0 = Inr (sq, fl, gs')"
    and c: "sequence_complete mrg network ids sq"
    by blast
  from r nz have "determineContractionSequence cost mrg num_walkers network gen gs = Inr (sq, fl, gs')"
    by (simp add: determineContractionSequence_def Let_def)
  moreover from c len N have "length sq = ?n - 1" "result_id (last sq) = 0"
    "map result_id (butlast sq) = butlast ids" "replay mrg network sq ids \<noteq> None"
    by (simp_all add: sequence_complete_def)
  ultimately show ?thesis by blast
qed

theorem planner_sequence_witness:
  "1 \<le> (2 :: nat) \<and> distinct (map fst demo_network)
   \<and> 2 \<le> num_inputs demo_network \<and> num_inputs demo_network < 2 ^ 32
   \<and> [5, 6, 7] = generated counter 5 (num_inputs demo_network - 1)
   \<and> distinct [5, 6, 7 :: nat] \<and> 0 \<notin> set [5, 6, 7 :: nat] \<and> set [5, 6, 7] \<inter> fst ` set demo_network = {}
   \<and> (\<exists>contr_seq flops gs'.
         determineContractionSequence demo_cost demo_merge 2 demo_network counter 5 = Inr (contr_seq, flops, gs')
         \<and> length contr_seq = 3
         \<and> result_id (last contr_seq) = 0
         \<and> map result_id (butlast contr_seq) = [5, 6]
         \<and> replay demo_merge demo_network contr_seq [5, 6, 7] \<noteq> None)"
proof -
  have n: "num_inputs demo_network = 4" by (simp add: demo_network_def num_inputs_def)
  have h1: "1 \<le> (2 :: nat)" by simp
  have h2: "distinct (map fst demo_network)" by (simp add: demo_network_def)
  have h3: "2 \<le> num_inputs demo_network" by (simp add: n)
  have h4: "num_inputs demo_network < 2 ^ 32" by (simp add: n)
  have h5: "[5, 6, 7] = generated counter 5 (num_inputs demo_network - 1)"
    by (simp add: n counter_def numeral_3_eq_3)
  have h6: "distinct [5, 6, 7 :: nat]" by simp
  have h7: "0 \<notin> set [5, 6, 7 :: nat]" by simp
  have h8: "set [5, 6, 7] \<inter> fst ` set demo_network = {}" by (simp add: demo_network_def)
  from planner_sequence [OF h1 h2 h3 h4 h5 h6 h7 h8, of demo_cost demo_merge]
  have e: "\<exists>contr_seq flops gs'.
         determineContractionSequence demo_cost demo_merge 2 demo_network counter 5 = Inr (contr_seq, flops, gs')
         \<and> length contr_seq = 3
         \<and> result_id (last contr_seq) = 0
         \<and> map result_id (butlast contr_seq) = [5, 6]
         \<and> replay demo_merge demo_network contr_seq [5, 6, 7] \<noteq> None"
    by (simp add: n)
  show ?thesis by (intro conjI h1 h2 h3 h4 h5 h6 h7 h8 e)
qed

lemmas planner_eval = determineContractionSequence_def getNumTensors_def passes.simps
  new_candidate_def mergeTensors_def cmpPaths_def priq_pop_def counter_def Let_def
  demo_cost_def demo_merge_def demo_extent_def demo_network_def

text \<open>C5. For a network that has no input factor at all (only the output tensor),
  \<open>numContractions\<close> is not 0 but the largest \<open>unsigned int\<close>: the passes run, no candidate is
  ever produced, and the last pass reads \<open>top()\<close> of the empty queue instead of returning the
  empty sequence and cost 0.\<close>

theorem no_input_factor_empty_queue:
  "determineContractionSequence cost mrg num_walkers [(0, t0)] gen gs = Inl EmptyQueue"
proof -
  obtain iid gs' where g: "gen gs = (iid, gs')" by fastforce
  have n: "unat (getNumTensors [(0 :: nat, t0)] - 1) = 4294967295" "getNumTensors [(0 :: nat, t0)] - 1 \<noteq> 0"
    by (simp_all add: getNumTensors_def unsigned_minus_1_eq_mask mask_eq_exp_minus_1)
  have "passes cost mrg num_walkers gen 4294967295 0 gs [([(0, t0)], [], 0)] [] [] 0
        = passes cost mrg num_walkers gen 4294967295 (Suc 0) gs' [] [] [] 0"
    using g by (subst passes.simps) simp
  also have "\<dots> = Inl EmptyQueue" by (rule passes_empty_beam) simp
  finally show ?thesis using n by (simp add: determineContractionSequence_def Let_def)
qed

text \<open>C10. With \<open>num_walkers_\<close> at least 1 and a network of at least two input factors (a
  network has one tensor per id), \<open>determineContractionSequence\<close> never reads \<open>top()\<close> of an
  empty queue: whatever the costs and the generated ids, its outcome is not that error.\<close>

theorem queue_nonempty_at_top:
  assumes "1 \<le> num_walkers" "distinct (map fst network)" "2 \<le> num_inputs network"
  shows "determineContractionSequence cost mrg num_walkers network gen gs \<noteq> Inl EmptyQueue"
proof -
  let ?N = "unat (getNumTensors network - 1)"
  from assms(3) have "?N < num_inputs network"
    unfolding getNumTensors_num_inputs by (intro numContractions_less) simp
  moreover have "\<forall>x\<in>set [(network, [], 0 :: real)]. path_shape (num_inputs network) 0 x"
    using assms(2) by (simp add: path_shape_def)
  ultimately have "passes cost mrg num_walkers gen ?N 0 gs [(network, [], 0)] [] [] 0 \<noteq> Inl EmptyQueue"
    using assms(1) by (intro passes_no_empty_queue [where ?n0.0 = "num_inputs network"]) simp_all
  then show ?thesis by (simp add: determineContractionSequence_def Let_def)
qed

theorem queue_nonempty_at_top_witness:
  "1 \<le> (2 :: nat) \<and> distinct (map fst demo_network) \<and> 2 \<le> num_inputs demo_network
   \<and> determineContractionSequence demo_cost demo_merge 2 demo_network counter (5 :: nat) \<noteq> Inl EmptyQueue"
proof -
  have h1: "1 \<le> (2 :: nat)" by simp
  have h2: "distinct (map fst demo_network)" by (simp add: demo_network_def)
  have h3: "2 \<le> num_inputs demo_network" by (simp add: demo_network_def num_inputs_def)
  from queue_nonempty_at_top [OF h1 h2 h3, of demo_cost demo_merge counter 5] h1 h2 h3
  show ?thesis by simp
qed

subsection \<open>The beam\<close>

lemma loop_j_rel:
  assumes "\<And>jt q acc. R q acc \<Longrightarrow> rel_sum (=) R (body1 P it jt q) (body2 P it jt acc)"
    and "R q acc"
  shows "rel_sum (=) R (loop_j body1 P it rest q) (loop_j body2 P it rest acc)"
  using assms(2)
proof (induction rest arbitrary: q acc)
  case Nil
  then show ?case by simp
next
  case (Cons jt rest)
  show ?case
  proof (cases "fst jt \<noteq> 0")
    case True
    from assms(1) [OF Cons.prems, of jt]
    have r: "rel_sum (=) R (body1 P it jt q) (body2 P it jt acc)" .
    show ?thesis
    proof (cases "body1 P it jt q")
      case (Inl e)
      with r have "body2 P it jt acc = Inl e" by (cases "body2 P it jt acc") simp_all
      with Inl True show ?thesis by simp
    next
      case (Inr q1)
      with r obtain acc1 where a: "body2 P it jt acc = Inr acc1" "R q1 acc1"
        by (cases "body2 P it jt acc") simp_all
      with Inr True Cons.IH [of q1 acc1] show ?thesis by simp
    qed
  next
    case False
    with Cons.IH [OF Cons.prems] show ?thesis by simp
  qed
qed

lemma loop_i_rel:
  assumes "\<And>it jt q acc. R q acc \<Longrightarrow> rel_sum (=) R (body1 P it jt q) (body2 P it jt acc)"
    and "R q acc"
  shows "rel_sum (=) R (loop_i body1 P l q) (loop_i body2 P l acc)"
  using assms(2)
proof (induction l arbitrary: q acc)
  case Nil
  then show ?case by simp
next
  case (Cons it rest)
  show ?case
  proof (cases "fst it \<noteq> 0")
    case True
    have r: "rel_sum (=) R (loop_j body1 P it rest q) (loop_j body2 P it rest acc)"
      using assms(1) Cons.prems by (rule loop_j_rel)
    show ?thesis
    proof (cases "loop_j body1 P it rest q")
      case (Inl e)
      with r have "loop_j body2 P it rest acc = Inl e" by (cases "loop_j body2 P it rest acc") simp_all
      with Inl True show ?thesis by simp
    next
      case (Inr q1)
      with r obtain acc1 where a: "loop_j body2 P it rest acc = Inr acc1" "R q1 acc1"
        by (cases "loop_j body2 P it rest acc") simp_all
      with Inr True Cons.IH [of q1 acc1] show ?thesis by simp
    qed
  next
    case False
    with Cons.IH [OF Cons.prems] show ?thesis by simp
  qed
qed

lemma loop_paths_rel:
  assumes "\<And>P it jt q acc. R q acc \<Longrightarrow> rel_sum (=) R (body1 P it jt q) (body2 P it jt acc)"
    and "R q acc"
  shows "rel_sum (=) R (loop_paths body1 B q) (loop_paths body2 B acc)"
  using assms(2)
proof (induction B arbitrary: q acc)
  case Nil
  then show ?case by simp
next
  case (Cons P B)
  have r: "rel_sum (=) R (loop_i body1 P (fst P) q) (loop_i body2 P (fst P) acc)"
    using assms(1) Cons.prems by (rule loop_i_rel)
  show ?case
  proof (cases "loop_i body1 P (fst P) q")
    case (Inl e)
    with r have "loop_i body2 P (fst P) acc = Inl e" by (cases "loop_i body2 P (fst P) acc") simp_all
    with Inl show ?thesis by simp
  next
    case (Inr q1)
    with r obtain acc1 where a: "loop_i body2 P (fst P) acc = Inr acc1" "R q1 acc1"
      by (cases "loop_i body2 P (fst P) acc") simp_all
    with Inr Cons.IH [of q1 acc1] show ?thesis by simp
  qed
qed

lemma pass_is_fold:
  "rel_sum (=) (\<lambda>q cs. q = fold (enqueue W) cs [])
     (loop_paths (new_candidate cost mrg W iid lp) B [])
     (loop_paths (collect_candidate cost mrg iid lp) B [])"
proof (rule loop_paths_rel)
  fix P it jt and q acc :: "'a ContrPath list"
  assume "q = fold (enqueue W) acc []"
  then show "rel_sum (=) (\<lambda>q cs. q = fold (enqueue W) cs [])
          (new_candidate cost mrg W iid lp P it jt q) (collect_candidate cost mrg iid lp P it jt acc)"
    by (cases "mergeTensors mrg (fst it) (fst jt) iid (fst P)")
       (simp_all add: new_candidate_def collect_candidate_def enqueue_def Let_def)
qed simp

lemma map_cost_emplace:
  "map (snd \<circ> snd) (priq_emplace x q) = ins_desc (snd (snd x)) (map (snd \<circ> snd) q)"
  by (induction q) (simp_all add: cmpPaths_def)

lemma mset_priq_emplace: "mset (priq_emplace x q) = add_mset x (mset q)"
  by (induction q) simp_all

lemma mset_ins_desc: "mset (ins_desc a l) = add_mset a (mset l)"
  by (induction l) simp_all

lemma sorted_ins_desc: "sorted (rev l) \<Longrightarrow> sorted (rev (ins_desc a l))"
proof (induction l)
  case Nil
  then show ?case by simp
next
  case (Cons b bs)
  show ?case
  proof (cases "b < a")
    case True
    with Cons.prems show ?thesis by (auto simp: sorted_append)
  next
    case False
    from Cons.prems have s: "sorted (rev bs)" "\<forall>x\<in>set bs. x \<le> b" by (auto simp: sorted_append)
    from Cons.IH [OF s(1)] have "sorted (rev (ins_desc a bs))" .
    moreover have "set (ins_desc a bs) = insert a (set bs)"
      using mset_ins_desc [of a bs] by (metis set_mset_add_mset_insert set_mset_mset)
    ultimately show ?thesis using False s(2) by (auto simp: sorted_append)
  qed
qed

lemma sorted_mset_unique:
  fixes xs ys :: "real list"
  assumes "sorted xs" "sorted ys" "mset xs = mset ys"
  shows "xs = ys"
  using assms by (metis sorted_sort_id sorted_list_of_multiset_mset)

lemma ins_desc_rev:
  assumes "sorted T"
  shows "ins_desc a (rev T) = rev (insort a T)"
proof -
  have "sorted (rev (ins_desc a (rev T)))" using assms by (intro sorted_ins_desc) simp
  moreover have "sorted (insort a T)" using assms by (simp add: sorted_insort)
  moreover have "mset (rev (ins_desc a (rev T))) = mset (insort a T)"
    by (simp add: mset_ins_desc)
  ultimately have "rev (ins_desc a (rev T)) = insort a T" by (rule sorted_mset_unique)
  then show ?thesis by (metis rev_rev_ident)
qed

lemma take_insort_take:
  "take W (insort a (take W S)) = take W (insort (a :: real) S)"
proof (induction S arbitrary: W)
  case Nil
  then show ?case by simp
next
  case (Cons s S)
  show ?case
  proof (cases W)
    case 0
    then show ?thesis by simp
  next
    case (Suc w)
    show ?thesis
    proof (cases "a \<le> s")
      case True
      have "take w (s # take w S) = take w (s # S)" by (cases w) simp_all
      with True Suc show ?thesis by simp
    next
      case False
      with Suc Cons.IH [of w] show ?thesis by simp
    qed
  qed
qed

lemma sort_snoc: "sort (as @ [a]) = insort (a :: real) (sort as)"
  by (rule properties_for_sort) (simp_all add: sorted_insort)

lemma length_ins_desc [simp]: "length (ins_desc a l) = Suc (length l)"
  by (induction l) simp_all

lemma enq_cost_step:
  assumes "sorted T" "length T \<le> W"
  shows "enq_cost W a (rev T) = rev (take W (insort a T))"
proof -
  have i: "ins_desc a (rev T) = rev (insort a T)" using assms(1) by (rule ins_desc_rev)
  show ?thesis
  proof (cases "W < Suc (length T)")
    case True
    with assms(2) have W: "length T = W" by simp
    then have "take W (insort a T) = butlast (insort a T)"
      by (simp add: butlast_conv_take)
    moreover have "tl (rev (insort a T)) = rev (butlast (insort a T))"
      by (metis butlast_rev rev_rev_ident rev_swap)
    ultimately show ?thesis using True i by (simp add: enq_cost_def)
  next
    case False
    with i show ?thesis by (simp add: enq_cost_def)
  qed
qed

lemma fold_enq_cost:
  "fold (enq_cost W) as [] = rev (take W (sort as))"
proof (induction as rule: rev_induct)
  case Nil
  then show ?case by simp
next
  case (snoc a as)
  let ?T = "take W (sort as)"
  have "fold (enq_cost W) (as @ [a]) [] = enq_cost W a (rev ?T)"
    using snoc.IH by simp
  also have "\<dots> = rev (take W (insort a ?T))"
    by (rule enq_cost_step) (simp_all add: sorted_wrt_take)
  also have "take W (insort a ?T) = take W (sort (as @ [a]))"
    by (simp add: take_insort_take sort_snoc)
  finally show ?case .
qed

lemma map_cost_enqueue:
  "map (snd \<circ> snd) (enqueue W x q) = enq_cost W (snd (snd x)) (map (snd \<circ> snd) q)"
  by (simp add: enqueue_def enq_cost_def Let_def priq_pop_def map_cost_emplace map_tl)

lemma map_cost_fold_enqueue:
  "map (snd \<circ> snd) (fold (enqueue W) cs q) = fold (enq_cost W) (map (snd \<circ> snd) cs) (map (snd \<circ> snd) q)"
  by (induction cs arbitrary: q) (simp_all add: map_cost_enqueue)

lemma mset_enqueue: "mset (enqueue W x q) \<subseteq># add_mset x (mset q)"
proof -
  have "mset (tl l) \<subseteq># mset l" for l :: "'a ContrPath list"
    by (cases l) simp_all
  from this [of "priq_emplace x q"] show ?thesis
    by (simp add: enqueue_def Let_def priq_pop_def mset_priq_emplace)
qed

lemma mset_fold_enqueue: "mset (fold (enqueue W) cs q) \<subseteq># mset cs + mset q"
proof (induction cs arbitrary: q)
  case Nil
  then show ?case by simp
next
  case (Cons x cs)
  have "mset (fold (enqueue W) cs (enqueue W x q)) \<subseteq># mset cs + mset (enqueue W x q)"
    by (rule Cons.IH)
  also have "\<dots> \<subseteq># mset cs + add_mset x (mset q)"
    using mset_enqueue [of W x q] by (simp add: subset_mset.add_left_mono)
  finally show ?case by simp
qed

lemma loops_keep_cheapest:
  assumes "loop_paths (new_candidate cost mrg num_walkers intermediate_id last_pass) inputPaths [] = Inr priq"
  shows "\<exists>cands. loop_paths (collect_candidate cost mrg intermediate_id last_pass) inputPaths [] = Inr cands
           \<and> length priq = min num_walkers (length cands)
           \<and> mset priq \<subseteq># mset cands
           \<and> map (snd \<circ> snd) (rev priq) = take num_walkers (sort (map (snd \<circ> snd) cands))"
proof -
  let ?r2 = "loop_paths (collect_candidate cost mrg intermediate_id last_pass) inputPaths []"
  from pass_is_fold [of num_walkers cost mrg intermediate_id last_pass inputPaths] assms
  obtain cands where c: "?r2 = Inr cands" and q: "priq = fold (enqueue num_walkers) cands []"
    by (cases ?r2) simp_all
  have m: "map (snd \<circ> snd) priq = rev (take num_walkers (sort (map (snd \<circ> snd) cands)))"
    unfolding q by (simp add: map_cost_fold_enqueue fold_enq_cost)
  then have "length (map (snd \<circ> snd) priq) = min num_walkers (length cands)"
    by (simp only: length_rev length_take length_sort length_map min.commute)
  then have 1: "length priq = min num_walkers (length cands)" by simp
  have 2: "mset priq \<subseteq># mset cands"
    unfolding q using mset_fold_enqueue [of num_walkers cands "[]"] by simp
  have "map (snd \<circ> snd) (rev priq) = rev (map (snd \<circ> snd) priq)" by (rule rev_map [symmetric])
  also have "\<dots> = take num_walkers (sort (map (snd \<circ> snd) cands))"
    by (simp only: m rev_rev_ident)
  finally have 3: "map (snd \<circ> snd) (rev priq) = take num_walkers (sort (map (snd \<circ> snd) cands))" .
  from c 1 2 3 show ?thesis by blast
qed

lemma pass_input_SucD:
  assumes "pass_input cost mrg W gen gs network (Suc k) = Inr (B, g)"
  obtains B0 g0 where "pass_input cost mrg W gen gs network k = Inr (B0, g0)"
    "loop_paths (new_candidate cost mrg W (fst (gen g0)) False) B0 [] = Inr B" "g = snd (gen g0)"
proof (cases "pass_input cost mrg W gen gs network k")
  case (Inl e)
  with assms show ?thesis by simp
next
  case (Inr r)
  obtain B0 g0 where r: "r = (B0, g0)" by (cases r)
  show ?thesis
  proof (cases "loop_paths (new_candidate cost mrg W (fst (gen g0)) False) B0 []")
    case (Inl e)
    with assms Inr r show ?thesis by simp
  next
    case q: (Inr q)
    with assms Inr r have "q = B" "g = snd (gen g0)" by simp_all
    with Inr r q show ?thesis by (intro that [of B0 g0]) simp_all
  qed
qed

lemma passes_reach:
  "k < N \<Longrightarrow> pass_input cost mrg W gen gs network k = Inr (B, g)
   \<Longrightarrow> passes cost mrg W gen N 0 gs [(network, [], 0)] [] [] 0 = passes cost mrg W gen N k g B [] [] 0"
proof (induction k arbitrary: B g)
  case 0
  then show ?case by simp
next
  case (Suc k)
  from Suc.prems(1) have kN: "k < N" and nl: "k \<noteq> N - 1" by simp_all
  show ?case
  proof (rule pass_input_SucD [OF Suc.prems(2)])
    fix B0 g0
    assume a: "pass_input cost mrg W gen gs network k = Inr (B0, g0)"
      and l: "loop_paths (new_candidate cost mrg W (fst (gen g0)) False) B0 [] = Inr B"
      and g: "g = snd (gen g0)"
    have gen: "gen g0 = (fst (gen g0), g)" by (simp add: g)
    from Suc.IH [OF kN a]
    have "passes cost mrg W gen N 0 gs [(network, [], 0)] [] [] 0 = passes cost mrg W gen N k g0 B0 [] [] 0" .
    also from passes_next [where gen = gen and gs = g0, OF kN gen nl l]
    have "\<dots> = passes cost mrg W gen N (Suc k) g B [] [] 0" .
    finally show ?thesis .
  qed
qed

text \<open>C4. Every pass of \<open>determineContractionSequence\<close> is entered with the empty queue:
  the run equals the loop over the passes at pass \<open>pass\<close> with the candidate paths of that
  pass and the queue empty. In the pass each candidate is put into the queue and the top entry,
  one of the highest flop count, is removed whenever the size exceeds \<open>num_walkers_\<close>; at
  the end of the pass the queue \<open>priq\<close> holds \<open>min(W, number of candidates)\<close> of the
  candidates generated in that pass, and their flop counts, from the bottom of the queue up,
  are the \<open>W\<close> lowest flop counts of all the candidates of the pass in increasing order.
  The last pass returns the bottom entry of this queue; any other pass hands the queue over as
  the candidate paths of the next pass and leaves it empty.\<close>

theorem pass_boundary_keeps_cheapest:
  assumes "pass < unat (getNumTensors network - 1)"
    and "pass_input cost mrg num_walkers gen gs network pass = Inr (inputPaths, gs_pass)"
    and "loop_paths (new_candidate cost mrg num_walkers (fst (gen gs_pass))
                       (pass = unat (getNumTensors network - 1) - 1)) inputPaths [] = Inr priq"
  shows "determineContractionSequence cost mrg num_walkers network gen gs
           = passes cost mrg num_walkers gen (unat (getNumTensors network - 1)) pass gs_pass inputPaths [] [] 0
         \<and> passes cost mrg num_walkers gen (unat (getNumTensors network - 1)) pass gs_pass inputPaths [] [] 0
           = (if pass = unat (getNumTensors network - 1) - 1
              then (if priq = [] then Inl EmptyQueue
                    else Inr (fst (snd (last priq)), snd (snd (last priq)), snd (gen gs_pass)))
              else passes cost mrg num_walkers gen (unat (getNumTensors network - 1)) (Suc pass)
                     (snd (gen gs_pass)) priq [] [] 0)
         \<and> (\<exists>cands. loop_paths (collect_candidate cost mrg (fst (gen gs_pass))
                                   (pass = unat (getNumTensors network - 1) - 1)) inputPaths [] = Inr cands
                \<and> length priq = min num_walkers (length cands)
                \<and> mset priq \<subseteq># mset cands
                \<and> map (snd \<circ> snd) (rev priq) = take num_walkers (sort (map (snd \<circ> snd) cands)))"
proof -
  let ?N = "unat (getNumTensors network - 1)"
  from assms(1) have nz: "getNumTensors network - 1 \<noteq> 0" by auto
  have gen: "gen gs_pass = (fst (gen gs_pass), snd (gen gs_pass))" by simp
  from nz have "determineContractionSequence cost mrg num_walkers network gen gs
      = passes cost mrg num_walkers gen ?N 0 gs [(network, [], 0)] [] [] 0"
    by (simp add: determineContractionSequence_def Let_def)
  also have "\<dots> = passes cost mrg num_walkers gen ?N pass gs_pass inputPaths [] [] 0"
    using assms(1,2) by (rule passes_reach)
  finally have 1: "determineContractionSequence cost mrg num_walkers network gen gs
      = passes cost mrg num_walkers gen ?N pass gs_pass inputPaths [] [] 0" .
  have 2: "passes cost mrg num_walkers gen ?N pass gs_pass inputPaths [] [] 0
           = (if pass = ?N - 1
              then (if priq = [] then Inl EmptyQueue
                    else Inr (fst (snd (last priq)), snd (snd (last priq)), snd (gen gs_pass)))
              else passes cost mrg num_walkers gen ?N (Suc pass) (snd (gen gs_pass)) priq [] [] 0)"
  proof (cases "pass = ?N - 1")
    case True
    with assms(3) have l: "loop_paths (new_candidate cost mrg num_walkers (fst (gen gs_pass)) True) inputPaths [] = Inr priq"
      by simp
    from passes_last [where gen = gen and gs = gs_pass, OF assms(1) gen True l] True
    show ?thesis by simp
  next
    case False
    with assms(3) have l: "loop_paths (new_candidate cost mrg num_walkers (fst (gen gs_pass)) False) inputPaths [] = Inr priq"
      by simp
    from passes_next [where gen = gen and gs = gs_pass, OF assms(1) gen False l] False
    show ?thesis by simp
  qed
  note 3 = loops_keep_cheapest [OF assms(3)]
  from 1 2 3 show ?thesis by (intro conjI)
qed

theorem pass_boundary_keeps_cheapest_witness:
  "(1 :: nat) < unat (getNumTensors demo_network - 1)
   \<and> pass_input demo_cost demo_merge 2 counter (5 :: nat) demo_network 1
       = Inr ([([(0, []), (1, [4]), (3, [0, 3, 4]), (5, [3, 2])], [\<lparr>result_id = 5, left_id = 2, right_id = 4\<rparr>], 80),
        ([(0, []), (3, [0, 3, 4]), (4, [1, 2]), (5, [4, 1, 3])], [\<lparr>result_id = 5, left_id = 1, right_id = 2\<rparr>], 40)], 6)
   \<and> loop_paths (new_candidate demo_cost demo_merge 2 (fst (counter 6)) (1 = unat (getNumTensors demo_network - 1) - 1))
       [([(0, []), (1, [4]), (3, [0, 3, 4]), (5, [3, 2])], [\<lparr>result_id = 5, left_id = 2, right_id = 4\<rparr>], 80),
        ([(0, []), (3, [0, 3, 4]), (4, [1, 2]), (5, [4, 1, 3])], [\<lparr>result_id = 5, left_id = 1, right_id = 2\<rparr>], 40)] []
       = Inr [([(0, []), (3, [0, 3, 4]), (6, [4, 3, 2])],
         [\<lparr>result_id = 5, left_id = 2, right_id = 4\<rparr>, \<lparr>result_id = 6, left_id = 1, right_id = 5\<rparr>], 280),
        ([(0, []), (5, [3, 2]), (6, [0, 3])],
         [\<lparr>result_id = 5, left_id = 2, right_id = 4\<rparr>, \<lparr>result_id = 6, left_id = 1, right_id = 3\<rparr>], 220)]
   \<and> determineContractionSequence demo_cost demo_merge 2 demo_network counter (5 :: nat)
       = passes demo_cost demo_merge 2 counter (unat (getNumTensors demo_network - 1)) 1 6
           [([(0, []), (1, [4]), (3, [0, 3, 4]), (5, [3, 2])], [\<lparr>result_id = 5, left_id = 2, right_id = 4\<rparr>], 80),
        ([(0, []), (3, [0, 3, 4]), (4, [1, 2]), (5, [4, 1, 3])], [\<lparr>result_id = 5, left_id = 1, right_id = 2\<rparr>], 40)] [] [] 0
   \<and> passes demo_cost demo_merge 2 counter (unat (getNumTensors demo_network - 1)) 1 (6 :: nat)
           [([(0, []), (1, [4]), (3, [0, 3, 4]), (5, [3, 2])], [\<lparr>result_id = 5, left_id = 2, right_id = 4\<rparr>], 80),
        ([(0, []), (3, [0, 3, 4]), (4, [1, 2]), (5, [4, 1, 3])], [\<lparr>result_id = 5, left_id = 1, right_id = 2\<rparr>], 40)] [] [] 0
       = passes demo_cost demo_merge 2 counter (unat (getNumTensors demo_network - 1)) (Suc 1) (snd (counter 6))
           [([(0, []), (3, [0, 3, 4]), (6, [4, 3, 2])],
         [\<lparr>result_id = 5, left_id = 2, right_id = 4\<rparr>, \<lparr>result_id = 6, left_id = 1, right_id = 5\<rparr>], 280),
        ([(0, []), (5, [3, 2]), (6, [0, 3])],
         [\<lparr>result_id = 5, left_id = 2, right_id = 4\<rparr>, \<lparr>result_id = 6, left_id = 1, right_id = 3\<rparr>], 220)] [] [] 0
   \<and> (\<exists>cands. loop_paths (collect_candidate demo_cost demo_merge (fst (counter 6)) (1 = unat (getNumTensors demo_network - 1) - 1))
           [([(0, []), (1, [4]), (3, [0, 3, 4]), (5, [3, 2])], [\<lparr>result_id = 5, left_id = 2, right_id = 4\<rparr>], 80),
        ([(0, []), (3, [0, 3, 4]), (4, [1, 2]), (5, [4, 1, 3])], [\<lparr>result_id = 5, left_id = 1, right_id = 2\<rparr>], 40)] [] = Inr cands
         \<and> 2 = min 2 (length cands)
         \<and> mset [([(0, []), (3, [0, 3, 4]), (6, [4, 3, 2])],
         [\<lparr>result_id = 5, left_id = 2, right_id = 4\<rparr>, \<lparr>result_id = 6, left_id = 1, right_id = 5\<rparr>], 280),
        ([(0, []), (5, [3, 2]), (6, [0, 3])],
         [\<lparr>result_id = 5, left_id = 2, right_id = 4\<rparr>, \<lparr>result_id = 6, left_id = 1, right_id = 3\<rparr>], 220)] \<subseteq># mset cands
         \<and> [220, 280] = take 2 (sort (map (snd \<circ> snd) cands)))"
proof -
  let ?B = "[([(0, []), (1, [4]), (3, [0, 3, 4]), (5, [3, 2])], [\<lparr>result_id = 5, left_id = 2, right_id = 4\<rparr>], 80),
        ([(0, []), (3, [0, 3, 4]), (4, [1, 2]), (5, [4, 1, 3])], [\<lparr>result_id = 5, left_id = 1, right_id = 2\<rparr>], 40)] :: nat list ContrPath list"
  let ?Q = "[([(0, []), (3, [0, 3, 4]), (6, [4, 3, 2])],
         [\<lparr>result_id = 5, left_id = 2, right_id = 4\<rparr>, \<lparr>result_id = 6, left_id = 1, right_id = 5\<rparr>], 280),
        ([(0, []), (5, [3, 2]), (6, [0, 3])],
         [\<lparr>result_id = 5, left_id = 2, right_id = 4\<rparr>, \<lparr>result_id = 6, left_id = 1, right_id = 3\<rparr>], 220)] :: nat list ContrPath list"
  have h1: "(1 :: nat) < unat (getNumTensors demo_network - 1)"
    by (simp add: getNumTensors_def demo_network_def)
  have nl: "(1 = unat (getNumTensors demo_network - 1) - 1) = False"
    by (simp add: getNumTensors_def demo_network_def)
  have h2: "pass_input demo_cost demo_merge 2 counter (5 :: nat) demo_network 1 = Inr (?B, 6)"
    by (simp add: planner_eval)
  have h3: "loop_paths (new_candidate demo_cost demo_merge 2 (fst (counter 6)) (1 = unat (getNumTensors demo_network - 1) - 1)) ?B [] = Inr ?Q"
    unfolding nl by (simp add: planner_eval)
  note t = pass_boundary_keeps_cheapest [OF h1 h2 h3]
  from t have c1: "determineContractionSequence demo_cost demo_merge 2 demo_network counter (5 :: nat)
       = passes demo_cost demo_merge 2 counter (unat (getNumTensors demo_network - 1)) 1 6 ?B [] [] 0"
    by (rule conjunct1)
  from t have "passes demo_cost demo_merge 2 counter (unat (getNumTensors demo_network - 1)) 1 (6 :: nat) ?B [] [] 0
       = (if 1 = unat (getNumTensors demo_network - 1) - 1
          then (if ?Q = [] then Inl EmptyQueue
                else Inr (fst (snd (last ?Q)), snd (snd (last ?Q)), snd (counter 6)))
          else passes demo_cost demo_merge 2 counter (unat (getNumTensors demo_network - 1)) (Suc 1) (snd (counter 6)) ?Q [] [] 0)"
    by (rule conjunct1 [OF conjunct2])
  then have c2: "passes demo_cost demo_merge 2 counter (unat (getNumTensors demo_network - 1)) 1 (6 :: nat) ?B [] [] 0
       = passes demo_cost demo_merge 2 counter (unat (getNumTensors demo_network - 1)) (Suc 1) (snd (counter 6)) ?Q [] [] 0"
    unfolding nl by (simp only: if_False)
  from t obtain cands where
    d1: "loop_paths (collect_candidate demo_cost demo_merge (fst (counter 6)) (1 = unat (getNumTensors demo_network - 1) - 1)) ?B [] = Inr cands"
    and d2: "length ?Q = min 2 (length cands)"
    and d3: "mset ?Q \<subseteq># mset cands"
    and d4: "map (snd \<circ> snd) (rev ?Q) = take 2 (sort (map (snd \<circ> snd) cands))"
    by blast
  from d2 have d2': "2 = min 2 (length cands)" by simp
  from d4 have d4': "[220, 280] = take 2 (sort (map (snd \<circ> snd) cands))" by simp
  have c3: "\<exists>cands. loop_paths (collect_candidate demo_cost demo_merge (fst (counter 6)) (1 = unat (getNumTensors demo_network - 1) - 1)) ?B [] = Inr cands
         \<and> 2 = min 2 (length cands)
         \<and> mset ?Q \<subseteq># mset cands
         \<and> [220, 280] = take 2 (sort (map (snd \<circ> snd) cands))"
    by (intro exI [of _ cands] conjI d1 d2' d3 d4')
  show ?thesis by (intro conjI h1 h2 h3 c1 c2 c3)
qed

subsection \<open>The beam width\<close>

lemma desc_emplace: "desc q \<Longrightarrow> desc (priq_emplace x q)"
  unfolding desc_def map_cost_emplace by (rule sorted_ins_desc)

lemma desc_tl: "desc q \<Longrightarrow> desc (tl q)"
  by (cases q) (auto simp: desc_def sorted_append)

lemma desc_enqueue: "desc q \<Longrightarrow> desc (enqueue W x q)"
  by (simp add: enqueue_def Let_def priq_pop_def desc_emplace desc_tl)

lemma desc_fold_enqueue: "desc q \<Longrightarrow> desc (fold (enqueue W) cs q)"
  by (induction cs arbitrary: q) (simp_all add: desc_enqueue)

lemma desc_last_le:
  assumes "desc q" "y \<in> set q"
  shows "snd (snd (last q)) \<le> snd (snd y)"
proof -
  from assms(2) have ne: "q \<noteq> []" by auto
  then have "rev (map (snd \<circ> snd) q) = rev (map (snd \<circ> snd) (butlast q @ [last q]))" by simp
  also have "\<dots> = snd (snd (last q)) # rev (map (snd \<circ> snd) (butlast q))" by simp
  finally have "sorted (snd (snd (last q)) # rev (map (snd \<circ> snd) (butlast q)))"
    using assms(1) by (simp add: desc_def)
  then have le: "\<forall>z\<in>set (butlast q). snd (snd (last q)) \<le> snd (snd z)" by simp
  from ne have "set q = set (butlast q @ [last q])" by simp
  with assms(2) have "y = last q \<or> y \<in> set (butlast q)" by auto
  with le show ?thesis by auto
qed

lemma last_priq_emplace:
  assumes "desc q" "q \<noteq> []"
  shows "last (priq_emplace x q) = (if cmpPaths (last q) x then last q else x)"
  using assms
proof (induction q)
  case Nil
  then show ?case by simp
next
  case (Cons y ys)
  show ?case
  proof (cases "ys = []")
    case True
    then show ?thesis by simp
  next
    case False
    from Cons.prems(1) have d: "desc ys" using desc_tl [of "y # ys"] by simp
    from Cons.prems(1) False have le: "snd (snd (last ys)) \<le> snd (snd y)"
      using desc_last_le [of "y # ys" y] by simp
    show ?thesis
    proof (cases "cmpPaths y x")
      case True
      with le have "cmpPaths (last ys) x" by (simp add: cmpPaths_def)
      with True False show ?thesis by simp
    next
      case F: False
      with Cons.IH [OF d False] False show ?thesis by (cases ys) simp_all
    qed
  qed
qed

lemma drain_enqueue:
  assumes "1 \<le> W" "desc q"
  shows "drain_to_one (enqueue W x q) = enqueue (Suc 0) x (drain_to_one q)"
proof (cases "q = []")
  case True
  with assms(1) show ?thesis by (simp add: enqueue_def priq_pop_def)
next
  case False
  let ?e = "priq_emplace x q"
  have len: "length ?e = Suc (length q)" by simp
  have l: "last ?e = (if cmpPaths (last q) x then last q else x)"
    using assms(2) False by (rule last_priq_emplace)
  have "last (enqueue W x q) = last ?e"
  proof (cases "W < length ?e")
    case True
    have "tl ?e \<noteq> []"
    proof
      assume "tl ?e = []"
      then have "length (tl ?e) = 0" by simp
      with \<open>q \<noteq> []\<close> show False by simp
    qed
    then have "last (tl ?e) = last ?e" by (simp add: last_tl)
    with True show ?thesis by (simp add: enqueue_def priq_pop_def)
  next
    case F: False
    then show ?thesis by (simp add: enqueue_def)
  qed
  moreover have "enqueue W x q \<noteq> []"
  proof (cases "W < length ?e")
    case True
    have "tl ?e \<noteq> []"
    proof
      assume "tl ?e = []"
      then have "length (tl ?e) = 0" by simp
      with \<open>q \<noteq> []\<close> show False by simp
    qed
    with True show ?thesis by (simp add: enqueue_def priq_pop_def)
  next
    case F: False
    then show ?thesis by (cases q) (simp_all add: enqueue_def)
  qed
  ultimately have "drain_to_one (enqueue W x q) = [if cmpPaths (last q) x then last q else x]"
    using l by (simp add: drain_to_one_eq)
  moreover have "enqueue (Suc 0) x (drain_to_one q) = [if cmpPaths (last q) x then last q else x]"
    using False by (simp add: drain_to_one_eq enqueue_def priq_pop_def)
  ultimately show ?thesis by simp
qed

lemma fold_enqueue_one:
  assumes "1 \<le> W"
  shows "fold (enqueue (Suc 0)) cs [] = drain_to_one (fold (enqueue W) cs [])"
proof (induction cs rule: rev_induct)
  case Nil
  then show ?case by simp
next
  case (snoc x cs)
  have "desc (fold (enqueue W) cs [])" by (rule desc_fold_enqueue) (simp add: desc_def)
  with assms show ?case by (simp add: snoc.IH drain_enqueue)
qed

lemma appending_collect: "appending (collect_candidate cost mrg iid lp)"
  by (simp add: appending_def collect_candidate_def split: option.splits)

lemma loop_j_appending:
  assumes "appending body"
  shows "loop_j body P it rest acc = map_sum id ((@) acc) (loop_j body P it rest [])"
proof (induction rest arbitrary: acc)
  case Nil
  then show ?case by simp
next
  case (Cons jt rest)
  show ?case
  proof (cases "fst jt \<noteq> 0")
    case True
    from assms have b: "body P it jt acc = map_sum id ((@) acc) (body P it jt [])"
      unfolding appending_def by blast
    show ?thesis
    proof (cases "body P it jt []")
      case (Inl e)
      with b True show ?thesis by simp
    next
      case (Inr k)
      have 1: "loop_j body P it rest (acc @ k) = map_sum id ((@) (acc @ k)) (loop_j body P it rest [])"
        by (rule Cons.IH)
      have 2: "loop_j body P it rest k = map_sum id ((@) k) (loop_j body P it rest [])"
        by (rule Cons.IH)
      from b Inr True 1 2 show ?thesis
        by (cases "loop_j body P it rest []") simp_all
    qed
  next
    case False
    with Cons.IH [of acc] show ?thesis by simp
  qed
qed

lemma loop_i_appending:
  assumes "appending body"
  shows "loop_i body P l acc = map_sum id ((@) acc) (loop_i body P l [])"
proof (induction l arbitrary: acc)
  case Nil
  then show ?case by simp
next
  case (Cons it rest)
  show ?case
  proof (cases "fst it \<noteq> 0")
    case True
    have b: "loop_j body P it rest acc = map_sum id ((@) acc) (loop_j body P it rest [])"
      using assms by (rule loop_j_appending)
    show ?thesis
    proof (cases "loop_j body P it rest []")
      case (Inl e)
      with b True show ?thesis by simp
    next
      case (Inr k)
      have 1: "loop_i body P rest (acc @ k) = map_sum id ((@) (acc @ k)) (loop_i body P rest [])"
        by (rule Cons.IH)
      have 2: "loop_i body P rest k = map_sum id ((@) k) (loop_i body P rest [])"
        by (rule Cons.IH)
      from b Inr True 1 2 show ?thesis
        by (cases "loop_i body P rest []") simp_all
    qed
  next
    case False
    with Cons.IH [of acc] show ?thesis by simp
  qed
qed

lemma loop_paths_appending:
  assumes "appending body"
  shows "loop_paths body B acc = map_sum id ((@) acc) (loop_paths body B [])"
proof (induction B arbitrary: acc)
  case Nil
  then show ?case by simp
next
  case (Cons P B)
  have b: "loop_i body P (fst P) acc = map_sum id ((@) acc) (loop_i body P (fst P) [])"
    using assms by (rule loop_i_appending)
  show ?case
  proof (cases "loop_i body P (fst P) []")
    case (Inl e)
    with b show ?thesis by simp
  next
    case (Inr k)
    have 1: "loop_paths body B (acc @ k) = map_sum id ((@) (acc @ k)) (loop_paths body B [])"
      by (rule Cons.IH)
    have 2: "loop_paths body B k = map_sum id ((@) k) (loop_paths body B [])"
      by (rule Cons.IH)
    from b Inr 1 2 show ?thesis
      by (cases "loop_paths body B []") simp_all
  qed
qed

lemma loop_paths_Cons_appending:
  assumes "appending body"
  shows "loop_paths body (P # B) [] = Inr r \<longleftrightarrow>
           (\<exists>k r'. loop_i body P (fst P) [] = Inr k \<and> loop_paths body B [] = Inr r' \<and> r = k @ r')"
proof (cases "loop_i body P (fst P) []")
  case (Inl e)
  then show ?thesis by simp
next
  case (Inr k)
  have "loop_paths body B k = map_sum id ((@) k) (loop_paths body B [])"
    using assms by (rule loop_paths_appending)
  with Inr show ?thesis by (cases "loop_paths body B []") auto
qed

lemma children_in_pass:
  assumes "appending body" "loop_paths body B [] = Inr r" "P \<in> set B"
  shows "\<exists>k. loop_i body P (fst P) [] = Inr k \<and> set k \<subseteq> set r"
  using assms(2,3)
proof (induction B arbitrary: r)
  case Nil
  then show ?case by simp
next
  case (Cons Q B)
  from Cons.prems(1) obtain k r' where k: "loop_i body Q (fst Q) [] = Inr k"
    "loop_paths body B [] = Inr r'" "r = k @ r'"
    unfolding loop_paths_Cons_appending [OF assms(1)] by blast
  show ?case
  proof (cases "P = Q")
    case True
    with k show ?thesis by simp
  next
    case False
    with Cons.prems(2) have "P \<in> set B" by simp
    from Cons.IH [OF k(2) this] k(3) show ?thesis by auto
  qed
qed

lemma pass_subset:
  assumes "appending body" "loop_paths body BW [] = Inr rW" "set B1 \<subseteq> set BW"
  shows "\<exists>r1. loop_paths body B1 [] = Inr r1 \<and> set r1 \<subseteq> set rW"
  using assms(3)
proof (induction B1)
  case Nil
  then show ?case by simp
next
  case (Cons P B1)
  then obtain r' where r': "loop_paths body B1 [] = Inr r'" "set r' \<subseteq> set rW" by auto
  from Cons.prems have "P \<in> set BW" by simp
  from children_in_pass [OF assms(1,2) this]
  obtain k where k: "loop_i body P (fst P) [] = Inr k" "set k \<subseteq> set rW" by blast
  from k(1) r'(1) have "loop_paths body (P # B1) [] = Inr (k @ r')"
    unfolding loop_paths_Cons_appending [OF assms(1)] by simp
  with k(2) r'(2) show ?case by simp
qed

lemma hd_sort_le:
  fixes xs :: "real list"
  assumes "x \<in> set xs"
  shows "hd (sort xs) \<le> x"
proof -
  from assms have "x \<in> set (sort xs)" by simp
  moreover have "sorted (sort xs)" by simp
  ultimately show ?thesis by (cases "sort xs") auto
qed

lemma cheapest_kept:
  assumes "1 \<le> W" "y \<in> set cs"
  shows "snd (snd (last (fold (enqueue W) cs []))) \<le> snd (snd y)"
proof -
  let ?q = "fold (enqueue W) cs []"
  let ?costs = "map (snd \<circ> snd) cs"
  have m: "map (snd \<circ> snd) ?q = rev (take W (sort ?costs))"
    by (simp add: map_cost_fold_enqueue fold_enq_cost)
  have ne: "sort ?costs \<noteq> []"
  proof
    assume "sort ?costs = []"
    then have "set (sort ?costs) = {}" by simp
    then have "set cs = {}" by simp
    with assms(2) show False by simp
  qed
  with assms(1) have t: "take W (sort ?costs) \<noteq> []" by auto
  then have "?q \<noteq> []" using m by auto
  then have "snd (snd (last ?q)) = last (map (snd \<circ> snd) ?q)" by (simp add: last_map)
  also have "\<dots> = hd (take W (sort ?costs))" using t by (simp only: m last_rev)
  also have "\<dots> = hd (sort ?costs)" using assms(1) by (cases W) simp_all
  also have "\<dots> \<le> snd (snd y)" using assms(2) by (intro hd_sort_le) simp
  finally show ?thesis .
qed

lemma set_fold_enqueue: "set (fold (enqueue W) cs []) \<subseteq> set cs"
  using mset_fold_enqueue [of W cs "[]"] by (metis add.right_neutral mset.simps(1) set_mset_mono set_mset_mset)

lemma collect_candidate_nonempty:
  "collect_candidate cost mrg iid lp P it jt acc = Inr acc' \<Longrightarrow> acc' \<noteq> []"
  by (auto simp: collect_candidate_def split: option.splits)

lemma pass_queue:
  assumes "loop_paths (new_candidate cost mrg W iid lp) B [] = Inr q"
  shows "\<exists>cs. loop_paths (collect_candidate cost mrg iid lp) B [] = Inr cs \<and> q = fold (enqueue W) cs []"
  using pass_is_fold [of W cost mrg iid lp B] assms
  by (cases "loop_paths (collect_candidate cost mrg iid lp) B []") simp_all

lemma pass_queue_conv:
  assumes "loop_paths (collect_candidate cost mrg iid lp) B [] = Inr cs"
  shows "loop_paths (new_candidate cost mrg W iid lp) B [] = Inr (fold (enqueue W) cs [])"
  using pass_is_fold [of W cost mrg iid lp B] assms
  by (cases "loop_paths (new_candidate cost mrg W iid lp) B []") simp_all

lemma passes_Inr_pass:
  assumes "p < N" "gen gs = (iid, gs')" "passes cost mrg W gen N p gs B [] cs fl = Inr res"
  shows "\<exists>q. loop_paths (new_candidate cost mrg W iid (p = N - 1)) B [] = Inr q"
proof (cases "loop_paths (new_candidate cost mrg W iid (p = N - 1)) B []")
  case (Inl e)
  from passes_failed [where gen = gen and gs = gs, OF assms(1,2) Inl] assms(3) show ?thesis by simp
next
  case (Inr q)
  then show ?thesis by blast
qed

lemma last_pass_le:
  assumes W: "1 \<le> W" and p: "p < N" "p = N - 1" and g: "gen gs = (iid, gs')"
    and sub: "set B1 \<subseteq> set BW" and ne1: "B1 \<noteq> []" "\<forall>P\<in>set B1. 2 \<le> num_inputs (fst P)"
    and rW: "passes cost mrg W gen N p gs BW [] cs fl = Inr (sW, cW, gW)"
  shows "\<exists>s1 c1. passes cost mrg (Suc 0) gen N p gs B1 [] cs' fl' = Inr (s1, c1, gW) \<and> cW \<le> c1"
proof -
  from passes_Inr_pass [OF p(1) g rW] p(2)
  obtain qW where nW: "loop_paths (new_candidate cost mrg W iid True) BW [] = Inr qW" by auto
  from pass_queue [OF nW] obtain csW where
    cW: "loop_paths (collect_candidate cost mrg iid True) BW [] = Inr csW"
    and qW: "qW = fold (enqueue W) csW []" by blast
  from passes_last [where gen = gen and gs = gs, OF p(1) g p(2) nW] rW
  have resW: "qW \<noteq> []" "cW = snd (snd (last qW))" "gW = gs'"
    by (auto split: if_splits)
  from pass_subset [OF appending_collect cW sub] obtain cs1 where
    c1: "loop_paths (collect_candidate cost mrg iid True) B1 [] = Inr cs1" and s1: "set cs1 \<subseteq> set csW"
    by blast
  let ?q1 = "fold (enqueue (Suc 0)) cs1 []"
  from pass_queue_conv [OF c1]
  have n1: "loop_paths (new_candidate cost mrg (Suc 0) iid True) B1 [] = Inr ?q1" .
  have q1ne: "?q1 \<noteq> []"
    using ne1 by (intro loop_paths_nonempty [OF new_candidate_nonempty n1]) simp_all
  from passes_last [where gen = gen and gs = gs, OF p(1) g p(2) n1] q1ne
  have res1: "passes cost mrg (Suc 0) gen N p gs B1 [] cs' fl'
      = Inr (fst (snd (last ?q1)), snd (snd (last ?q1)), gs')"
    by simp
  from q1ne have "last ?q1 \<in> set ?q1" by simp
  with set_fold_enqueue [of "Suc 0" cs1] s1 have "last ?q1 \<in> set csW" by blast
  from cheapest_kept [OF W this] have "cW \<le> snd (snd (last ?q1))"
    by (simp add: resW(2) qW)
  with res1 resW(3) show ?thesis by simp
qed

text \<open>C6, as the claim states it, fails: on the network of four factors \<open>demo_network\<close>, with
  the same generator, beam width 1 returns the cost 460 and beam width 2 returns the cost 500.
  The path that width 1 follows is removed from the wider queue in the second pass by two
  paths that are cheaper then and dearer in the end.\<close>

theorem wider_beam_costlier:
  "determineContractionSequence demo_cost demo_merge 1 demo_network counter 5
     = Inr ([\<lparr>result_id = 5, left_id = 1, right_id = 2\<rparr>,
             \<lparr>result_id = 6, left_id = 3, right_id = 5\<rparr>,
             \<lparr>result_id = 0, left_id = 4, right_id = 6\<rparr>], 460, 8)
   \<and> determineContractionSequence demo_cost demo_merge 2 demo_network counter 5
     = Inr ([\<lparr>result_id = 5, left_id = 2, right_id = 4\<rparr>,
             \<lparr>result_id = 6, left_id = 1, right_id = 3\<rparr>,
             \<lparr>result_id = 0, left_id = 5, right_id = 6\<rparr>], 500, 8)
   \<and> \<not> (500 :: real) \<le> 460"
  by (simp add: planner_eval)

text \<open>C6, amended. For a network of two or three input factors (one tensor per id) and any
  beam width \<open>W \<ge> 1\<close>: if \<open>determineContractionSequence\<close> returns with beam width \<open>W\<close>, it
  returns with beam width 1 too, for the same cost routine and the same generator, and the
  cost returned with width \<open>W\<close> is at most the cost returned with width 1.\<close>

theorem small_network_monotone:
  assumes "1 \<le> num_walkers" "distinct (map fst network)"
    and "2 \<le> num_inputs network" "num_inputs network \<le> 3"
    and "determineContractionSequence cost mrg num_walkers network gen gs = Inr (seqW, flopsW, gsW)"
  shows "\<exists>seq1 flops1. determineContractionSequence cost mrg 1 network gen gs = Inr (seq1, flops1, gsW)
           \<and> flopsW \<le> flops1"
proof -
  let ?n = "num_inputs network"
  let ?N = "unat (getNumTensors network - 1)"
  let ?init = "[(network, [], 0 :: real)]"
  from assms(3,4) have N: "?N = ?n - 1"
    unfolding getNumTensors_num_inputs by (intro numContractions_exact) simp_all
  have nz: "getNumTensors network - 1 \<noteq> 0"
  proof
    assume "getNumTensors network - 1 = 0"
    then have "?N = 0" by simp
    with N assms(3) show False by simp
  qed
  from assms(5) nz have rW: "passes cost mrg num_walkers gen ?N 0 gs ?init [] [] 0 = Inr (seqW, flopsW, gsW)"
    by (simp add: determineContractionSequence_def Let_def)
  have d1: "determineContractionSequence cost mrg 1 network gen gs
      = passes cost mrg (Suc 0) gen ?N 0 gs ?init [] [] 0"
    using nz by (simp add: determineContractionSequence_def Let_def)
  obtain i0 g1 where g0: "gen gs = (i0, g1)" by fastforce
  have shape0: "\<forall>x\<in>set ?init. path_shape ?n 0 x"
    using assms(2) by (simp add: path_shape_def)
  show ?thesis
  proof (cases "?n = 2")
    case True
    with N have p: "0 < ?N" "0 = ?N - 1" by simp_all
    from True have two: "\<forall>P\<in>set ?init. 2 \<le> num_inputs (fst P)" by simp
    from last_pass_le [where gen = gen and gs = gs and ?B1.0 = ?init and cs' = "[]" and fl' = 0,
        OF assms(1) p g0 _ _ two rW]
    show ?thesis unfolding d1 by simp
  next
    case False
    with assms(3,4) have n3: "?n = 3" by simp
    with N have p0: "0 < ?N" "0 \<noteq> ?N - 1" and p1: "Suc 0 < ?N" "Suc 0 = ?N - 1" by simp_all
    obtain i1 g2 where g1: "gen g1 = (i1, g2)" by fastforce
    from p0(2) have f: "(0 = ?N - 1) = False" by simp
    from passes_Inr_pass [OF p0(1) g0 rW]
    obtain BW where "loop_paths (new_candidate cost mrg num_walkers i0 (0 = ?N - 1)) ?init [] = Inr BW"
      by blast
    then have nW: "loop_paths (new_candidate cost mrg num_walkers i0 False) ?init [] = Inr BW"
      unfolding f .
    from pass_queue [OF nW] obtain cs0 where
      c0: "loop_paths (collect_candidate cost mrg i0 False) ?init [] = Inr cs0"
      and BW: "BW = fold (enqueue num_walkers) cs0 []" by blast
    let ?B1 = "fold (enqueue (Suc 0)) cs0 []"
    from pass_queue_conv [OF c0]
    have n1: "loop_paths (new_candidate cost mrg (Suc 0) i0 False) ?init [] = Inr ?B1" .
    have B1: "?B1 = drain_to_one BW" unfolding BW using assms(1) by (rule fold_enqueue_one)
    from passes_next [where gen = gen and gs = gs, OF p0(1) g0 p0(2) nW] rW
    have rW1: "passes cost mrg num_walkers gen ?N (Suc 0) g1 BW [] [] 0 = Inr (seqW, flopsW, gsW)" by simp
    from passes_next [where gen = gen and gs = gs, OF p0(1) g0 p0(2) n1]
    have r11: "passes cost mrg (Suc 0) gen ?N 0 gs ?init [] [] 0
        = passes cost mrg (Suc 0) gen ?N (Suc 0) g1 ?B1 [] [] 0" .
    have ne: "?B1 \<noteq> []"
      using n3 by (intro loop_paths_nonempty [OF new_candidate_nonempty n1]) simp_all
    have sub: "set ?B1 \<subseteq> set BW" unfolding B1 by (auto simp: drain_to_one_eq)
    from pass_shape [OF shape0, of cost mrg "Suc 0" i0 False] n1
    have "\<forall>x\<in>set ?B1. path_shape ?n (Suc 0) x" by simp
    with n3 have two: "\<forall>P\<in>set ?B1. 2 \<le> num_inputs (fst P)"
      by (auto simp: path_shape_def)
    from last_pass_le [where gen = gen and gs = g1 and cs' = "[]" and fl' = 0,
        OF assms(1) p1 g1 sub ne two rW1]
    show ?thesis unfolding d1 r11 by simp
  qed
qed

theorem small_network_monotone_witness:
  "1 \<le> (2 :: nat) \<and> distinct (map fst [(0 :: nat, [] :: nat list), (1, [4]), (2, [1, 3]), (3, [0, 3, 4])])
   \<and> 2 \<le> num_inputs [(0 :: nat, [] :: nat list), (1, [4]), (2, [1, 3]), (3, [0, 3, 4])]
   \<and> num_inputs [(0 :: nat, [] :: nat list), (1, [4]), (2, [1, 3]), (3, [0, 3, 4])] \<le> 3
   \<and> determineContractionSequence demo_cost demo_merge 2 [(0, []), (1, [4]), (2, [1, 3]), (3, [0, 3, 4])] counter 5
       = Inr ([\<lparr>result_id = 5, left_id = 1, right_id = 3\<rparr>, \<lparr>result_id = 0, left_id = 2, right_id = 5\<rparr>], 196, 7)
   \<and> (\<exists>seq1 flops1.
         determineContractionSequence demo_cost demo_merge 1 [(0, []), (1, [4]), (2, [1, 3]), (3, [0, 3, 4])] counter 5
           = Inr (seq1, flops1, 7)
         \<and> 196 \<le> flops1)"
proof -
  let ?net = "[(0 :: nat, [] :: nat list), (1, [4]), (2, [1, 3]), (3, [0, 3, 4])]"
  have h1: "1 \<le> (2 :: nat)" by simp
  have h2: "distinct (map fst ?net)" by simp
  have h3: "2 \<le> num_inputs ?net" by (simp add: num_inputs_def)
  have h4: "num_inputs ?net \<le> 3" by (simp add: num_inputs_def)
  have h5: "determineContractionSequence demo_cost demo_merge 2 ?net counter 5
       = Inr ([\<lparr>result_id = 5, left_id = 1, right_id = 3\<rparr>, \<lparr>result_id = 0, left_id = 2, right_id = 5\<rparr>], 196, 7)"
    by (simp add: planner_eval)
  note e = small_network_monotone [OF h1 h2 h3 h4 h5]
  show ?thesis by (intro conjI h1 h2 h3 h4 h5 e)
qed

end
